theory Spec2Isabelle
  imports Complex_Main "HOL-Library.Word"
begin

unbundle bit_operations_syntax

section \<open>Python values\<close>

text \<open>
  A Python \<open>str\<close> is the list of its code points, \<open>bytes\<close> a list of octets.
  The values that reach the service are the ones \<open>json.loads\<close> builds: \<open>None\<close>,
  \<open>bool\<close>, \<open>int\<close> (unbounded), \<open>float\<close>, \<open>str\<close>, \<open>list\<close> and \<open>dict\<close> with
  \<open>str\<close> keys (insertion ordered, so an association list). A finite float is
  kept as the rational it denotes: the program only compares floats, and
  Python compares \<open>int\<close> and \<open>float\<close> exactly.
\<close>

type_synonym pystr = "nat list"

type_synonym bytes = "8 word list"

definition ustr :: "string \<Rightarrow> pystr" where
  "ustr s = map of_char s"

datatype pyfloat = Finite rat | PosInf | NegInf | NaN

datatype pyval =
    PNone
  | PBool bool
  | PInt int
  | PFloat pyfloat
  | PStr pystr
  | PList "pyval list"
  | PDict "(pystr \<times> pyval) list"

text \<open>
  The exceptions the program can meet. \<open>JSONDecodeError\<close>, \<open>UnicodeDecodeError\<close>
  and \<open>UnicodeEncodeError\<close> are subclasses of \<open>ValueError\<close>; the two messages
  raised by \<open>protocol.py\<close> itself are \<open>Message_vide\<close> and
  \<open>Message_trop_volumineux max_size\<close>. \<open>socket.timeout\<close> is a subclass of
  \<open>OSError\<close>, caught first by the handler.
\<close>

datatype value_error =
    Message_vide
  | Message_trop_volumineux nat
  | JSONDecodeError
  | UnicodeDecodeError
  | UnicodeEncodeError

datatype exn =
    SocketTimeout
  | OSError
  | ValueError value_error
  | KeyError
  | AttributeError
  | TypeError

text \<open>Truth value of an object (\<open>not x\<close>, \<open>x or y\<close>, \<open>if x\<close>).\<close>

fun truthy :: "pyval \<Rightarrow> bool" where
  "truthy PNone = False"
| "truthy (PBool b) = b"
| "truthy (PInt i) = (i \<noteq> 0)"
| "truthy (PFloat f) = (f \<noteq> Finite 0)"
| "truthy (PStr s) = (s \<noteq> [])"
| "truthy (PList xs) = (xs \<noteq> [])"
| "truthy (PDict kvs) = (kvs \<noteq> [])"

text \<open>\<open>isinstance(v, (int, float))\<close>: \<open>bool\<close> is a subclass of \<open>int\<close>.\<close>

fun is_int_or_float :: "pyval \<Rightarrow> bool" where
  "is_int_or_float (PBool b) = True"
| "is_int_or_float (PInt i) = True"
| "is_int_or_float (PFloat f) = True"
| "is_int_or_float v = False"

text \<open>The number a numeric object stands for in a comparison.\<close>

fun number_of :: "pyval \<Rightarrow> pyfloat option" where
  "number_of (PBool b) = Some (Finite (if b then 1 else 0))"
| "number_of (PInt i) = Some (Finite (of_int i))"
| "number_of (PFloat f) = Some f"
| "number_of v = None"

text \<open>\<open>a <= b\<close> and \<open>a < b\<close> on numbers: every comparison with NaN is false.\<close>

fun float_le :: "pyfloat \<Rightarrow> pyfloat \<Rightarrow> bool" where
  "float_le NaN b = False"
| "float_le a NaN = False"
| "float_le NegInf b = True"
| "float_le a PosInf = True"
| "float_le (Finite x) (Finite y) = (x \<le> y)"
| "float_le a b = False"

fun float_lt :: "pyfloat \<Rightarrow> pyfloat \<Rightarrow> bool" where
  "float_lt NaN b = False"
| "float_lt a NaN = False"
| "float_lt (Finite x) (Finite y) = (x < y)"
| "float_lt NegInf NegInf = False"
| "float_lt NegInf b = True"
| "float_lt PosInf b = False"
| "float_lt (Finite x) PosInf = True"
| "float_lt (Finite x) NegInf = False"

text \<open>
  \<open>str.strip()\<close> removes the leading and trailing white space; these are the
  code points for which \<open>str.isspace\<close> holds.
\<close>

definition isspace :: "nat \<Rightarrow> bool" where
  "isspace c \<longleftrightarrow>
     (9 \<le> c \<and> c \<le> 13) \<or> (28 \<le> c \<and> c \<le> 32) \<or> c = 133 \<or> c = 160 \<or> c = 5760 \<or>
     (8192 \<le> c \<and> c \<le> 8202) \<or> c = 8232 \<or> c = 8233 \<or> c = 8239 \<or> c = 8287 \<or>
     c = 12288"

definition strip :: "pystr \<Rightarrow> pystr" where
  "strip s = rev (dropWhile isspace (rev (dropWhile isspace s)))"

text \<open>\<open>d.get(key, default)\<close> on a dict.\<close>

definition dict_get :: "(pystr \<times> pyval) list \<Rightarrow> pystr \<Rightarrow> pyval \<Rightarrow> pyval" where
  "dict_get d k dflt = (case map_of d k of Some v \<Rightarrow> v | None \<Rightarrow> dflt)"

section \<open>models.py\<close>

text \<open>
  The dataclasses. Python does not enforce the annotations, and \<open>from_dict\<close>
  copies whatever the payload holds, so every field of a reading is a \<open>pyval\<close>;
  \<open>declared_types\<close> says that a reading has the types its class declares
  (\<open>value: object\<close> is unconstrained). The field \<open>value\<close> is named \<open>val\<close> here.
\<close>

record SensorReading =
  sensor_id :: pyval
  type :: pyval
  val :: pyval
  unit :: pyval
  timestamp :: pyval
  pump_status :: pyval
  irrigation_mm :: pyval

fun is_str :: "pyval \<Rightarrow> bool" where
  "is_str (PStr s) = True"
| "is_str v = False"

definition declared_types :: "SensorReading \<Rightarrow> bool" where
  "declared_types r \<longleftrightarrow>
     is_str (sensor_id r) \<and> is_str (type r) \<and> is_str (unit r) \<and> is_str (timestamp r) \<and>
     (pump_status r = PNone \<or> is_str (pump_status r)) \<and>
     (irrigation_mm r = PNone \<or> is_int_or_float (irrigation_mm r))"

text \<open>
  The message of a validation error is an f-string; the model keeps which
  f-string it is and the objects interpolated into it, in the order of the
  source.
\<close>

datatype message =
    Sensor_id_obligatoire
  | Valeur_non_numerique pyval
  | Valeur_hors_plage pyval pyfloat pyfloat pyval
  | Timestamp_invalide pyval
  | Pompe_off_irrigation pyval

record ValidationError =
  e_sensor_id :: pyval
  field :: pystr
  message :: message

record IngestResponse =
  request_id :: pyval
  accepted_count :: nat
  rejected_count :: nat
  errors :: "ValidationError list"
  processing_time_ms :: pyfloat

section \<open>validators.py\<close>

definition VALUE_RANGES :: "(pystr \<times> pyfloat \<times> pyfloat) list" where
  "VALUE_RANGES =
     [(ustr ''temperature'', Finite (- 50), Finite 60),
      (ustr ''humidity'', Finite 0, Finite 100),
      (ustr ''rainfall'', Finite 0, Finite 500),
      (ustr ''irrigation'', Finite 0, Finite 200),
      (ustr ''wind_speed'', Finite 0, Finite 300)]"

text \<open>
  \<open>VALUE_RANGES.get(reading.type)\<close>: a list or a dict is unhashable and raises
  \<open>TypeError\<close>; any other object that is not one of the five keys gives \<open>None\<close>.
\<close>

fun VALUE_RANGES_get :: "pyval \<Rightarrow> exn + (pyfloat \<times> pyfloat) option" where
  "VALUE_RANGES_get (PStr s) = Inr (map_of VALUE_RANGES s)"
| "VALUE_RANGES_get (PList xs) = Inl TypeError"
| "VALUE_RANGES_get (PDict kvs) = Inl TypeError"
| "VALUE_RANGES_get v = Inr None"

text \<open>\<open>sid = reading.sensor_id or "(vide)"\<close>\<close>

definition sid :: "SensorReading \<Rightarrow> pyval" where
  "sid r = (if truthy (sensor_id r) then sensor_id r else PStr (ustr ''(vide)''))"

text \<open>
  The four checks of \<open>validate_single_reading\<close>, each giving the errors it
  appends. \<open>reading.sensor_id.strip()\<close> exists on a \<open>str\<close> only
  (\<open>AttributeError\<close> otherwise), and is reached only for a truthy \<open>sensor_id\<close>.
\<close>

definition check_sensor_id :: "SensorReading \<Rightarrow> exn + ValidationError list" where
  "check_sensor_id r =
     (let e = \<lparr>e_sensor_id = sid r, field = ustr ''sensor_id'', message = Sensor_id_obligatoire\<rparr>
      in if \<not> truthy (sensor_id r) then Inr [e]
         else (case sensor_id r of
                 PStr s \<Rightarrow> Inr (if strip s = [] then [e] else [])
               | _ \<Rightarrow> Inl AttributeError))"

definition check_value :: "SensorReading \<Rightarrow> exn + ValidationError list" where
  "check_value r =
     (if \<not> is_int_or_float (val r) then
        Inr [\<lparr>e_sensor_id = sid r, field = ustr ''value'',
              message = Valeur_non_numerique (val r)\<rparr>]
      else
        (case VALUE_RANGES_get (type r) of
           Inl x \<Rightarrow> Inl x
         | Inr None \<Rightarrow> Inr []
         | Inr (Some (vmin, vmax)) \<Rightarrow>
             (case number_of (val r) of
                None \<Rightarrow> Inl TypeError
              | Some v \<Rightarrow>
                  if \<not> (float_le vmin v \<and> float_le v vmax) then
                    Inr [\<lparr>e_sensor_id = sid r, field = ustr ''value'',
                          message = Valeur_hors_plage (val r) vmin vmax (type r)\<rparr>]
                  else Inr [])))"

text \<open>
  \<open>datetime.fromisoformat\<close> belongs to the Python library; \<open>fromiso\<close> says which
  strings it parses. For an object that is not a \<open>str\<close> it raises \<open>TypeError\<close>,
  which the check catches like \<open>ValueError\<close>.
\<close>

definition check_timestamp :: "(pystr \<Rightarrow> bool) \<Rightarrow> SensorReading \<Rightarrow> ValidationError list" where
  "check_timestamp fromiso r =
     (let e = \<lparr>e_sensor_id = sid r, field = ustr ''timestamp'',
                message = Timestamp_invalide (timestamp r)\<rparr>
      in case timestamp r of
           PStr s \<Rightarrow> (if fromiso s then [] else [e])
         | _ \<Rightarrow> [e])"

text \<open>
  \<open>reading.irrigation_mm > 0\<close> is evaluated only when \<open>pump_status == "OFF"\<close> and
  \<open>irrigation_mm is not None\<close>; on an object that is not a number it raises
  \<open>TypeError\<close>.
\<close>

definition check_pump :: "SensorReading \<Rightarrow> exn + ValidationError list" where
  "check_pump r =
     (if pump_status r = PStr (ustr ''OFF'') \<and> irrigation_mm r \<noteq> PNone then
        (case number_of (irrigation_mm r) of
           None \<Rightarrow> Inl TypeError
         | Some v \<Rightarrow>
             if float_lt (Finite 0) v then
               Inr [\<lparr>e_sensor_id = sid r, field = ustr ''pump_status'',
                     message = Pompe_off_irrigation (irrigation_mm r)\<rparr>]
             else Inr [])
      else Inr [])"

definition validate_single_reading ::
  "(pystr \<Rightarrow> bool) \<Rightarrow> SensorReading \<Rightarrow> exn + ValidationError list" where
  "validate_single_reading fromiso r =
     (case check_sensor_id r of
        Inl x \<Rightarrow> Inl x
      | Inr e1 \<Rightarrow>
          (case check_value r of
             Inl x \<Rightarrow> Inl x
           | Inr e2 \<Rightarrow>
               (case check_pump r of
                  Inl x \<Rightarrow> Inl x
                | Inr e4 \<Rightarrow> Inr (e1 @ e2 @ check_timestamp fromiso r @ e4))))"

text \<open>
  The loop of \<open>validate_readings\<close>, with its two accumulators; an exception of
  \<open>validate_single_reading\<close> leaves the loop.
\<close>

fun validate_loop ::
  "(pystr \<Rightarrow> bool) \<Rightarrow> SensorReading list \<Rightarrow> SensorReading list \<Rightarrow> ValidationError list \<Rightarrow>
   exn + (SensorReading list \<times> ValidationError list)" where
  "validate_loop fromiso [] accepted all_errors = Inr (accepted, all_errors)"
| "validate_loop fromiso (reading # rest) accepted all_errors =
     (case validate_single_reading fromiso reading of
        Inl x \<Rightarrow> Inl x
      | Inr errs \<Rightarrow>
          if errs \<noteq> [] then validate_loop fromiso rest accepted (all_errors @ errs)
          else validate_loop fromiso rest (accepted @ [reading]) all_errors)"

definition validate_readings ::
  "(pystr \<Rightarrow> bool) \<Rightarrow> SensorReading list \<Rightarrow>
   exn + (SensorReading list \<times> ValidationError list)" where
  "validate_readings fromiso readings = validate_loop fromiso readings [] []"


section \<open>protocol.py\<close>

definition PROTOCOL_VERSION :: pystr where
  "PROTOCOL_VERSION = ustr ''v1''"

definition MAX_MESSAGE_SIZE :: nat where
  "MAX_MESSAGE_SIZE = 1048576"

text \<open>
  \<open>str(uuid.uuid4())\<close>: sixteen random octets, of which the library fixes the
  variant and version bits, printed as 32 hexadecimal digits in groups of 8, 4,
  4, 4 and 12.
\<close>

definition uuid4 :: "128 word \<Rightarrow> 128 word" where
  "uuid4 rnd =
     (((rnd AND NOT (push_bit 48 0xc000)) OR push_bit 48 0x8000)
        AND NOT (push_bit 64 0xf000)) OR push_bit 76 4"

definition hexdigit :: "nat \<Rightarrow> nat" where
  "hexdigit d = (if d < 10 then 48 + d else 87 + d)"

definition hex32 :: "128 word \<Rightarrow> pystr" where
  "hex32 w = map (\<lambda>i. hexdigit (unat (drop_bit (4 * (31 - i)) w AND 15))) [0..<32]"

definition uuid_str :: "128 word \<Rightarrow> pystr" where
  "uuid_str u =
     (let h = hex32 u
      in take 8 h @ [45] @ take 4 (drop 8 h) @ [45] @ take 4 (drop 12 h) @ [45] @
         take 4 (drop 16 h) @ [45] @ drop 20 h)"

text \<open>
  \<open>build_message\<close> reads the random source and the clock: \<open>rnd\<close> are the random
  octets of \<open>uuid.uuid4()\<close> and \<open>now\<close> is \<open>datetime.now().isoformat()\<close>. An absent
  \<open>request_id\<close> is \<open>None\<close>; the argument is named \<open>rid\<close> here.
\<close>

definition build_message :: "128 word \<Rightarrow> pystr \<Rightarrow> pyval \<Rightarrow> pyval \<Rightarrow> pyval \<Rightarrow> pyval" where
  "build_message rnd now msg_type payload rid =
     PDict [(ustr ''version'', PStr PROTOCOL_VERSION),
            (ustr ''type'', msg_type),
            (ustr ''request_id'',
               if truthy rid then rid else PStr (uuid_str (uuid4 rnd))),
            (ustr ''sent_at'', PStr now),
            (ustr ''payload'', payload)]"

text \<open>\<open>msg[key]\<close> and \<open>msg.get(key, default)\<close> on an object: only a dict has them.\<close>

fun py_get :: "pyval \<Rightarrow> pystr \<Rightarrow> pyval \<Rightarrow> exn + pyval" where
  "py_get (PDict d) k dflt = Inr (dict_get d k dflt)"
| "py_get v k dflt = Inl AttributeError"

fun py_getitem :: "pyval \<Rightarrow> pystr \<Rightarrow> exn + pyval" where
  "py_getitem (PDict d) k = (case map_of d k of Some v \<Rightarrow> Inr v | None \<Rightarrow> Inl KeyError)"
| "py_getitem v k = Inl TypeError"

subsection \<open>Framing\<close>

text \<open>
  \<open>bytes.decode("utf-8")\<close>, strict: overlong forms, surrogates and code points
  above 0x10FFFF are refused (\<open>None\<close> stands for \<open>UnicodeDecodeError\<close>).
\<close>

definition cont :: "nat \<Rightarrow> bool" where
  "cont b \<longleftrightarrow> 128 \<le> b \<and> b < 192"

fun utf8_dec :: "nat list \<Rightarrow> pystr option" where
  "utf8_dec [] = Some []"
| "utf8_dec (b0 # bs) =
     (if b0 < 128 then map_option ((#) b0) (utf8_dec bs)
      else if 194 \<le> b0 \<and> b0 < 224 then
        (case bs of
           b1 # r \<Rightarrow>
             if cont b1 then map_option ((#) ((b0 - 192) * 64 + (b1 - 128))) (utf8_dec r)
             else None
         | _ \<Rightarrow> None)
      else if 224 \<le> b0 \<and> b0 < 240 then
        (case bs of
           b1 # b2 # r \<Rightarrow>
             (let c = (b0 - 224) * 4096 + (b1 - 128) * 64 + (b2 - 128)
              in if cont b1 \<and> cont b2 \<and> 2048 \<le> c \<and> \<not> (55296 \<le> c \<and> c < 57344)
                 then map_option ((#) c) (utf8_dec r) else None)
         | _ \<Rightarrow> None)
      else if 240 \<le> b0 \<and> b0 < 245 then
        (case bs of
           b1 # b2 # b3 # r \<Rightarrow>
             (let c = (b0 - 240) * 262144 + (b1 - 128) * 4096 + (b2 - 128) * 64 + (b3 - 128)
              in if cont b1 \<and> cont b2 \<and> cont b3 \<and> 65536 \<le> c \<and> c < 1114112
                 then map_option ((#) c) (utf8_dec r) else None)
         | _ \<Rightarrow> None)
      else None)"

definition utf8_decode :: "bytes \<Rightarrow> pystr option" where
  "utf8_decode bs = utf8_dec (map unat bs)"

text \<open>
  The connection, as \<open>recv_line\<close> sees it: what the successive calls of
  \<open>conn.recv(4096)\<close> give. \<open>Data chunk\<close> is a chunk of received octets,
  \<open>Timeout\<close> raises \<open>socket.timeout\<close>, \<open>ConnError\<close> raises another \<open>OSError\<close>;
  at the end of the list the peer has closed and \<open>recv\<close> returns \<open>b""\<close>.
\<close>

datatype recv_event = Data bytes | Timeout | ConnError

text \<open>\<open>buffer.find(b"\n")\<close>, \<open>None\<close> for -1.\<close>

definition find_newline :: "bytes \<Rightarrow> nat option" where
  "find_newline buffer =
     (if 10 \<in> set buffer then Some (length (takeWhile (\<lambda>b. b \<noteq> 10) buffer)) else None)"

text \<open>Lines 56 to 63: the peer has closed.\<close>

definition at_close :: "bytes \<Rightarrow> (exn + pystr option) \<times> bytes" where
  "at_close buffer =
     (if buffer \<noteq> [] then
        (case utf8_decode buffer of
           None \<Rightarrow> (Inl (ValueError UnicodeDecodeError), buffer)
         | Some line \<Rightarrow> (Inr (Some line), []))
      else (Inr None, buffer))"

text \<open>
  \<open>recv_line\<close> returns a line, \<open>None\<close>, or raises; the model also returns the
  rest of the connection and the buffer, which the source mutates.
\<close>

fun recv_line ::
  "recv_event list \<Rightarrow> bytes \<Rightarrow> nat \<Rightarrow> (exn + pystr option) \<times> recv_event list \<times> bytes" where
  "recv_line conn buffer max_size =
     (case find_newline buffer of
        Some newline_pos \<Rightarrow>
          (case utf8_decode (take newline_pos buffer) of
             None \<Rightarrow> (Inl (ValueError UnicodeDecodeError), conn, buffer)
           | Some line \<Rightarrow> (Inr (Some line), conn, drop (newline_pos + 1) buffer))
      | None \<Rightarrow>
          (case conn of
             [] \<Rightarrow> (fst (at_close buffer), [], snd (at_close buffer))
           | Timeout # rest \<Rightarrow> (Inl SocketTimeout, rest, buffer)
           | ConnError # rest \<Rightarrow> (Inl OSError, rest, buffer)
           | Data chunk # rest \<Rightarrow>
               if chunk = [] then (fst (at_close buffer), rest, snd (at_close buffer))
               else if length (buffer @ chunk) > max_size then
                 (Inl (ValueError (Message_trop_volumineux max_size)), rest, buffer @ chunk)
               else recv_line rest (buffer @ chunk) max_size))"

declare recv_line.simps [simp del]

text \<open>The loop, one case at a time.\<close>

lemma recv_line_newline:
  "find_newline buffer = Some pos \<Longrightarrow>
   recv_line conn buffer max_size =
     (case utf8_decode (take pos buffer) of
        None \<Rightarrow> (Inl (ValueError UnicodeDecodeError), conn, buffer)
      | Some line \<Rightarrow> (Inr (Some line), conn, drop (pos + 1) buffer))"
  by (simp add: recv_line.simps)

lemma recv_line_closed:
  "find_newline buffer = None \<Longrightarrow>
   recv_line [] buffer max_size = (fst (at_close buffer), [], snd (at_close buffer))"
  by (simp add: recv_line.simps)

lemma recv_line_empty_chunk:
  "find_newline buffer = None \<Longrightarrow>
   recv_line (Data [] # rest) buffer max_size = (fst (at_close buffer), rest, snd (at_close buffer))"
  by (simp add: recv_line.simps)

lemma recv_line_too_large:
  "find_newline buffer = None \<Longrightarrow> chunk \<noteq> [] \<Longrightarrow> length (buffer @ chunk) > max_size \<Longrightarrow>
   recv_line (Data chunk # rest) buffer max_size =
     (Inl (ValueError (Message_trop_volumineux max_size)), rest, buffer @ chunk)"
  by (simp add: recv_line.simps)

lemma recv_line_append:
  "find_newline buffer = None \<Longrightarrow> chunk \<noteq> [] \<Longrightarrow> length (buffer @ chunk) \<le> max_size \<Longrightarrow>
   recv_line (Data chunk # rest) buffer max_size = recv_line rest (buffer @ chunk) max_size"
  by (simp add: recv_line.simps)

lemma find_newline_None: "find_newline buffer = None \<longleftrightarrow> 10 \<notin> set buffer"
  by (simp add: find_newline_def)

text \<open>
  The sequence of lines a caller gets by calling \<open>recv_line\<close> on the same
  connection and buffer until it returns \<open>None\<close> or raises; the second
  component is the exception that ended the sequence, if any.
\<close>

fun event_weight :: "recv_event \<Rightarrow> nat" where
  "event_weight (Data chunk) = Suc (length chunk)"
| "event_weight ev = 1"

lemma takeWhile_shorter: "x \<in> set xs \<Longrightarrow> length (takeWhile (\<lambda>b. b \<noteq> x) xs) < length xs"
  by (induction xs) auto

lemma find_newline_less: "find_newline buffer = Some pos \<Longrightarrow> pos < length buffer"
  by (auto simp: find_newline_def split: if_splits intro: takeWhile_shorter)

lemma recv_line_decreases:
  "recv_line conn buffer max_size = (Inr (Some line), conn', buffer') \<Longrightarrow>
   length buffer' + sum_list (map event_weight conn') <
   length buffer + sum_list (map event_weight conn)"
proof (induction conn arbitrary: buffer)
  case Nil
  then show ?case
    by (cases "find_newline buffer")
      (auto simp: recv_line_closed recv_line_newline at_close_def
        split: option.splits if_splits dest: find_newline_less)
next
  case (Cons ev conn)
  show ?case
  proof (cases "find_newline buffer")
    case (Some pos)
    with Cons.prems show ?thesis
      by (auto simp: recv_line_newline split: option.splits dest: find_newline_less)
  next
    case None
    show ?thesis
    proof (cases ev)
      case (Data chunk)
      show ?thesis
      proof (cases "chunk = []")
        case True
        with None Data Cons.prems show ?thesis
          by (auto simp: recv_line_empty_chunk at_close_def split: option.splits if_splits)
      next
        case False
        show ?thesis
        proof (cases "length (buffer @ chunk) > max_size")
          case True
          with None Data False Cons.prems show ?thesis
            by (simp add: recv_line_too_large)
        next
          case False
          with None Data \<open>chunk \<noteq> []\<close> Cons.prems
          have "recv_line conn (buffer @ chunk) max_size = (Inr (Some line), conn', buffer')"
            by (simp add: recv_line_append)
          from Cons.IH [OF this] Data show ?thesis by simp
        qed
      qed
    next
      case Timeout
      with None Cons.prems show ?thesis by (simp add: recv_line.simps)
    next
      case ConnError
      with None Cons.prems show ?thesis by (simp add: recv_line.simps)
    qed
  qed
qed

function read_lines :: "recv_event list \<Rightarrow> bytes \<Rightarrow> nat \<Rightarrow> pystr list \<times> exn option" where
  "read_lines conn buffer max_size =
     (case recv_line conn buffer max_size of
        (Inl e, conn', buffer') \<Rightarrow> ([], Some e)
      | (Inr None, conn', buffer') \<Rightarrow> ([], None)
      | (Inr (Some line), conn', buffer') \<Rightarrow>
          (case read_lines conn' buffer' max_size of (ls, e) \<Rightarrow> (line # ls, e)))"
  by pat_completeness auto
termination
  by (relation "measure (\<lambda>(conn, buffer, max_size).
        length buffer + sum_list (map event_weight conn))")
     (auto dest: recv_line_decreases [OF sym])

declare read_lines.simps [simp del]

subsection \<open>Messages on the wire\<close>

text \<open>
  \<open>str.encode("utf-8")\<close>: a surrogate cannot be encoded (\<open>None\<close> stands for
  \<open>UnicodeEncodeError\<close>).
\<close>

definition utf8_enc_char :: "nat \<Rightarrow> nat list option" where
  "utf8_enc_char c =
     (if c < 128 then Some [c]
      else if c < 2048 then Some [192 + c div 64, 128 + c mod 64]
      else if c < 65536 then
        (if 55296 \<le> c \<and> c < 57344 then None
         else Some [224 + c div 4096, 128 + c div 64 mod 64, 128 + c mod 64])
      else if c < 1114112 then
        Some [240 + c div 262144, 128 + c div 4096 mod 64, 128 + c div 64 mod 64, 128 + c mod 64]
      else None)"

fun utf8_enc :: "pystr \<Rightarrow> nat list option" where
  "utf8_enc [] = Some []"
| "utf8_enc (c # s) =
     (case utf8_enc_char c of
        None \<Rightarrow> None
      | Some bs \<Rightarrow> map_option ((@) bs) (utf8_enc s))"

definition utf8_encode :: "pystr \<Rightarrow> bytes option" where
  "utf8_encode s = map_option (map of_nat) (utf8_enc s)"

text \<open>
  \<open>encode_message\<close> and \<open>decode_message\<close>. \<open>dumps\<close> is
  \<open>json.dumps(_, ensure_ascii=False, separators=(",", ":"))\<close> and \<open>loads\<close> is
  \<open>json.loads\<close>, whose \<open>JSONDecodeError\<close> is \<open>None\<close>.
\<close>

definition encode_message :: "(pyval \<Rightarrow> pystr) \<Rightarrow> pyval \<Rightarrow> exn + bytes" where
  "encode_message dumps msg =
     (let line = dumps msg
      in case utf8_encode (line @ [10]) of
           None \<Rightarrow> Inl (ValueError UnicodeEncodeError)
         | Some data \<Rightarrow> Inr data)"

definition decode_message :: "(pystr \<Rightarrow> pyval option) \<Rightarrow> pystr \<Rightarrow> exn + pyval" where
  "decode_message loads raw =
     (let stripped = strip raw
      in if stripped = [] then Inl (ValueError Message_vide)
         else (case loads stripped of
                 None \<Rightarrow> Inl (ValueError JSONDecodeError)
               | Some msg \<Rightarrow> Inr msg))"

section \<open>server.py: the response to a batch\<close>

text \<open>
  Lines 57 to 67 of \<open>handle_client\<close>: the batch is validated and the response
  is built from the two lists. \<open>elapsed_ms\<close> is the rounded processing time.
\<close>

definition ingest_response ::
  "(pystr \<Rightarrow> bool) \<Rightarrow> pyval \<Rightarrow> SensorReading list \<Rightarrow> pyfloat \<Rightarrow> exn + IngestResponse" where
  "ingest_response fromiso rid readings elapsed_ms =
     (case validate_readings fromiso readings of
        Inl x \<Rightarrow> Inl x
      | Inr (accepted, errs) \<Rightarrow>
          Inr \<lparr>request_id = rid, accepted_count = length accepted,
               rejected_count = length errs, errors = errs,
               processing_time_ms = elapsed_ms\<rparr>)"

section \<open>The json module\<close>

text \<open>
  \<open>json.dumps(msg, ensure_ascii=False, separators=(",", ":"))\<close> and \<open>json.loads\<close> on
  the values above. The decimal text of a finite float (\<open>float.__repr__\<close>) and
  the float of a decimal text (\<open>float(...)\<close>) belong to the Python runtime: they
  are the parameters \<open>frepr\<close> and \<open>fparse\<close>.
\<close>

subsection \<open>Encoding\<close>

fun digits_of :: "nat \<Rightarrow> pystr" where
  "digits_of n = (if n < 10 then [48 + n] else digits_of (n div 10) @ [48 + n mod 10])"

declare digits_of.simps [simp del]

definition int_repr :: "int \<Rightarrow> pystr" where
  "int_repr i = (if i < 0 then 45 # digits_of (nat (- i)) else digits_of (nat i))"

definition hex4 :: "nat \<Rightarrow> pystr" where
  "hex4 n = [hexdigit (n div 4096 mod 16), hexdigit (n div 256 mod 16),
             hexdigit (n div 16 mod 16), hexdigit (n mod 16)]"

text \<open>
  Without \<open>ensure_ascii\<close> only the quote, the backslash and the control
  characters below 0x20 are escaped.
\<close>

definition escape_char :: "nat \<Rightarrow> pystr" where
  "escape_char c =
     (if c = 34 then [92, 34]
      else if c = 92 then [92, 92]
      else if c = 10 then [92, 110]
      else if c = 13 then [92, 114]
      else if c = 9 then [92, 116]
      else if c = 8 then [92, 98]
      else if c = 12 then [92, 102]
      else if c < 32 then [92, 117] @ hex4 c
      else [c])"

definition encode_basestring :: "pystr \<Rightarrow> pystr" where
  "encode_basestring s = 34 # concat (map escape_char s) @ [34]"

fun join :: "pystr \<Rightarrow> pystr list \<Rightarrow> pystr" where
  "join sep [] = []"
| "join sep [x] = x"
| "join sep (x # y # ys) = x @ sep @ join sep (y # ys)"

definition float_repr :: "(rat \<Rightarrow> pystr) \<Rightarrow> pyfloat \<Rightarrow> pystr" where
  "float_repr frepr f =
     (case f of
        NaN \<Rightarrow> ustr ''NaN''
      | PosInf \<Rightarrow> ustr ''Infinity''
      | NegInf \<Rightarrow> ustr ''-Infinity''
      | Finite q \<Rightarrow> frepr q)"

fun json_dumps :: "(rat \<Rightarrow> pystr) \<Rightarrow> pyval \<Rightarrow> pystr" where
  "json_dumps frepr PNone = ustr ''null''"
| "json_dumps frepr (PBool b) = (if b then ustr ''true'' else ustr ''false'')"
| "json_dumps frepr (PInt i) = int_repr i"
| "json_dumps frepr (PFloat f) = float_repr frepr f"
| "json_dumps frepr (PStr s) = encode_basestring s"
| "json_dumps frepr (PList xs) = [91] @ join [44] (map (json_dumps frepr) xs) @ [93]"
| "json_dumps frepr (PDict kvs) =
     [123] @ join [44] (map (\<lambda>kv. encode_basestring (fst kv) @ [58] @ json_dumps frepr (snd kv)) kvs)
       @ [125]"

subsection \<open>Decoding\<close>

definition is_ws :: "nat \<Rightarrow> bool" where
  "is_ws c \<longleftrightarrow> c = 32 \<or> c = 9 \<or> c = 10 \<or> c = 13"

definition skip_ws :: "pystr \<Rightarrow> pystr" where
  "skip_ws s = dropWhile is_ws s"

definition is_digit :: "nat \<Rightarrow> bool" where
  "is_digit c \<longleftrightarrow> 48 \<le> c \<and> c \<le> 57"

definition starts_with :: "pystr \<Rightarrow> pystr \<Rightarrow> bool" where
  "starts_with p s \<longleftrightarrow> take (length p) s = p"

definition hex_value :: "nat \<Rightarrow> nat option" where
  "hex_value c =
     (if 48 \<le> c \<and> c \<le> 57 then Some (c - 48)
      else if 97 \<le> c \<and> c \<le> 102 then Some (c - 87)
      else if 65 \<le> c \<and> c \<le> 70 then Some (c - 55)
      else None)"

text \<open>The four hexadecimal digits of a \<open>\uXXXX\<close> escape.\<close>

definition decode_uXXXX :: "pystr \<Rightarrow> nat option" where
  "decode_uXXXX s =
     (case s of
        a # b # c # d # r \<Rightarrow>
          (case (hex_value a, hex_value b, hex_value c, hex_value d) of
             (Some x, Some y, Some z, Some w) \<Rightarrow> Some (((x * 16 + y) * 16 + z) * 16 + w)
           | _ \<Rightarrow> None)
      | _ \<Rightarrow> None)"

definition unescape :: "nat \<Rightarrow> nat option" where
  "unescape e =
     (if e = 34 then Some 34
      else if e = 92 then Some 92
      else if e = 47 then Some 47
      else if e = 98 then Some 8
      else if e = 102 then Some 12
      else if e = 110 then Some 10
      else if e = 114 then Some 13
      else if e = 116 then Some 9
      else None)"

text \<open>
  \<open>scanstring\<close> (strict), from the character after the opening quote: the
  string and the text after its closing quote. A high surrogate escape
  followed by a low surrogate escape is one character.
\<close>

fun scanstring :: "pystr \<Rightarrow> (pystr \<times> pystr) option" where
  "scanstring [] = None"
| "scanstring (c # r) =
     (if c = 34 then Some ([], r)
      else if c = 92 then
        (case r of
           [] \<Rightarrow> None
         | e # r' \<Rightarrow>
             if e = 117 then
               (case decode_uXXXX r' of
                  None \<Rightarrow> None
                | Some u \<Rightarrow>
                    if 55296 \<le> u \<and> u \<le> 56319 \<and> starts_with [92, 117] (drop 4 r') then
                      (case decode_uXXXX (drop 6 r') of
                         None \<Rightarrow> None
                       | Some u2 \<Rightarrow>
                           if 56320 \<le> u2 \<and> u2 \<le> 57343 then
                             map_option (\<lambda>(x, rest). ((65536 + (u - 55296) * 1024 + (u2 - 56320)) # x, rest))
                               (scanstring (drop 10 r'))
                           else map_option (\<lambda>(x, rest). (u # x, rest)) (scanstring (drop 4 r')))
                    else map_option (\<lambda>(x, rest). (u # x, rest)) (scanstring (drop 4 r')))
             else
               (case unescape e of
                  None \<Rightarrow> None
                | Some ch \<Rightarrow> map_option (\<lambda>(x, rest). (ch # x, rest)) (scanstring r')))
      else if c < 32 then None
      else map_option (\<lambda>(x, rest). (c # x, rest)) (scanstring r))"

text \<open>
  \<open>NUMBER_RE\<close>: the integer part, the fraction and the exponent (each of the
  last two empty when absent), and the text after the number.
\<close>

definition match_frac :: "pystr \<Rightarrow> pystr \<times> pystr" where
  "match_frac s =
     (case s of
        c # r \<Rightarrow>
          if c = 46 \<and> takeWhile is_digit r \<noteq> [] then
            (46 # takeWhile is_digit r, dropWhile is_digit r)
          else ([], s)
      | [] \<Rightarrow> ([], s))"

definition match_exp :: "pystr \<Rightarrow> pystr \<times> pystr" where
  "match_exp s =
     (case s of
        c # r \<Rightarrow>
          if c = 101 \<or> c = 69 then
            (let sign = (case r of g # r' \<Rightarrow> if g = 45 \<or> g = 43 then [g] else [] | [] \<Rightarrow> []);
                 r1 = drop (length sign) r
             in if takeWhile is_digit r1 \<noteq> [] then
                  (c # sign @ takeWhile is_digit r1, dropWhile is_digit r1)
                else ([], s))
          else ([], s)
      | [] \<Rightarrow> ([], s))"

definition match_integer :: "pystr \<Rightarrow> (pystr \<times> pystr) option" where
  "match_integer s =
     (let sign = (case s of c # r \<Rightarrow> if c = 45 then [c] else [] | [] \<Rightarrow> []);
          s1 = drop (length sign) s
      in case s1 of
           d # r \<Rightarrow>
             if d = 48 then Some (sign @ [48], r)
             else if is_digit d then Some (sign @ takeWhile is_digit s1, dropWhile is_digit s1)
             else None
         | [] \<Rightarrow> None)"

definition match_number :: "pystr \<Rightarrow> (pystr \<times> pystr \<times> pystr \<times> pystr) option" where
  "match_number s =
     (case match_integer s of
        None \<Rightarrow> None
      | Some (integer, r1) \<Rightarrow>
          (let (fraction, r2) = match_frac r1; (expo, r3) = match_exp r2
           in Some (integer, fraction, expo, r3)))"

definition nat_of_digits :: "pystr \<Rightarrow> nat" where
  "nat_of_digits ds = foldl (\<lambda>n d. 10 * n + (d - 48)) 0 ds"

definition int_of_text :: "pystr \<Rightarrow> int" where
  "int_of_text s =
     (case s of
        c # r \<Rightarrow> if c = 45 then - int (nat_of_digits r) else int (nat_of_digits s)
      | [] \<Rightarrow> 0)"

text \<open>\<open>dict(pairs)\<close>: a later pair with the same key replaces the value in place.\<close>

definition dict_set :: "(pystr \<times> pyval) list \<Rightarrow> pystr \<times> pyval \<Rightarrow> (pystr \<times> pyval) list" where
  "dict_set d kv =
     (if fst kv \<in> fst ` set d then map (\<lambda>old. if fst old = fst kv then kv else old) d
      else d @ [kv])"

definition dict_of_pairs :: "(pystr \<times> pyval) list \<Rightarrow> (pystr \<times> pyval) list" where
  "dict_of_pairs pairs = foldl dict_set [] pairs"

text \<open>
  The scanner. The first argument of the three functions bounds the number of
  nested calls; \<open>json_loads\<close> starts with more than the length of the text,
  which is always enough (\<open>json_loads_bound_enough\<close> below), since a call
  that returns has consumed at least one character.
  \<open>parse_array\<close> starts at the first element, \<open>parse_object\<close> after the
  opening quote of a key.
\<close>

fun parse_value :: "(pystr \<Rightarrow> pyfloat) \<Rightarrow> nat \<Rightarrow> pystr \<Rightarrow> (pyval \<times> pystr) option"
  and parse_array :: "(pystr \<Rightarrow> pyfloat) \<Rightarrow> nat \<Rightarrow> pystr \<Rightarrow> (pyval list \<times> pystr) option"
  and parse_object ::
    "(pystr \<Rightarrow> pyfloat) \<Rightarrow> nat \<Rightarrow> pystr \<Rightarrow> ((pystr \<times> pyval) list \<times> pystr) option"
where
  "parse_value fparse 0 s = None"
| "parse_value fparse (Suc n) s =
     (case s of
        [] \<Rightarrow> None
      | c # r \<Rightarrow>
          if c = 34 then map_option (\<lambda>(x, rest). (PStr x, rest)) (scanstring r)
          else if c = 123 then
            (case skip_ws r of
               [] \<Rightarrow> None
             | q # r' \<Rightarrow>
                 if q = 125 then Some (PDict [], r')
                 else if q = 34 then
                   map_option (\<lambda>(pairs, rest). (PDict (dict_of_pairs pairs), rest))
                     (parse_object fparse n r')
                 else None)
          else if c = 91 then
            (case skip_ws r of
               [] \<Rightarrow> None
             | q # r' \<Rightarrow>
                 if q = 93 then Some (PList [], r')
                 else map_option (\<lambda>(vs, rest). (PList vs, rest)) (parse_array fparse n (q # r')))
          else if starts_with (ustr ''null'') s then Some (PNone, drop 4 s)
          else if starts_with (ustr ''true'') s then Some (PBool True, drop 4 s)
          else if starts_with (ustr ''false'') s then Some (PBool False, drop 5 s)
          else
            (case match_number s of
               Some (integer, fraction, expo, rest) \<Rightarrow>
                 if fraction = [] \<and> expo = [] then Some (PInt (int_of_text integer), rest)
                 else Some (PFloat (fparse (integer @ fraction @ expo)), rest)
             | None \<Rightarrow>
                 if starts_with (ustr ''NaN'') s then Some (PFloat NaN, drop 3 s)
                 else if starts_with (ustr ''Infinity'') s then Some (PFloat PosInf, drop 8 s)
                 else if starts_with (ustr ''-Infinity'') s then Some (PFloat NegInf, drop 9 s)
                 else None))"
| "parse_array fparse 0 s = None"
| "parse_array fparse (Suc n) s =
     (case parse_value fparse n s of
        None \<Rightarrow> None
      | Some (v, r) \<Rightarrow>
          (case skip_ws r of
             [] \<Rightarrow> None
           | q # r' \<Rightarrow>
               if q = 93 then Some ([v], r')
               else if q = 44 then
                 map_option (\<lambda>(vs, rest). (v # vs, rest)) (parse_array fparse n (skip_ws r'))
               else None))"
| "parse_object fparse 0 s = None"
| "parse_object fparse (Suc n) s =
     (case scanstring s of
        None \<Rightarrow> None
      | Some (key, r1) \<Rightarrow>
          (case skip_ws r1 of
             [] \<Rightarrow> None
           | colon # r2 \<Rightarrow>
               if colon \<noteq> 58 then None
               else
                 (case parse_value fparse n (skip_ws r2) of
                    None \<Rightarrow> None
                  | Some (v, r3) \<Rightarrow>
                      (case skip_ws r3 of
                         [] \<Rightarrow> None
                       | q # r4 \<Rightarrow>
                           if q = 125 then Some ([(key, v)], r4)
                           else if q = 44 then
                             (case skip_ws r4 of
                                [] \<Rightarrow> None
                              | q2 # r5 \<Rightarrow>
                                  if q2 = 34 then
                                    map_option (\<lambda>(pairs, rest). ((key, v) # pairs, rest))
                                      (parse_object fparse n r5)
                                  else None)
                           else None))))"

text \<open>\<open>None\<close> stands for \<open>JSONDecodeError\<close>.\<close>

definition json_loads :: "(pystr \<Rightarrow> pyfloat) \<Rightarrow> pystr \<Rightarrow> pyval option" where
  "json_loads fparse s =
     (case parse_value fparse (Suc (length s)) (skip_ws s) of
        None \<Rightarrow> None
      | Some (v, rest) \<Rightarrow> if skip_ws rest = [] then Some v else None)"

subsection \<open>What JSON represents\<close>

text \<open>
  A text that UTF-8 can encode: code points up to 0x10FFFF that are not
  surrogates.
\<close>

definition text_ok :: "pystr \<Rightarrow> bool" where
  "text_ok s \<longleftrightarrow> list_all (\<lambda>c. c < 1114112 \<and> \<not> (55296 \<le> c \<and> c < 57344)) s"

text \<open>
  What the round trip needs of the float functions of the runtime, for one
  finite float: its \<open>repr\<close> is a JSON number with a fraction or an exponent,
  and \<open>float\<close> reads it back as the same float.
\<close>

definition float_text_ok :: "(rat \<Rightarrow> pystr) \<Rightarrow> (pystr \<Rightarrow> pyfloat) \<Rightarrow> rat \<Rightarrow> bool" where
  "float_text_ok frepr fparse q \<longleftrightarrow>
     (case match_number (frepr q) of
        Some (i, f, e, r) \<Rightarrow> r = [] \<and> (f \<noteq> [] \<or> e \<noteq> []) \<and> fparse (frepr q) = Finite q
      | None \<Rightarrow> False)"

text \<open>
  The objects that JSON represents: no NaN or infinity, texts without
  surrogates, and dicts with distinct keys (as every Python dict has).
\<close>

fun json_value :: "(rat \<Rightarrow> pystr) \<Rightarrow> (pystr \<Rightarrow> pyfloat) \<Rightarrow> pyval \<Rightarrow> bool" where
  "json_value frepr fparse PNone = True"
| "json_value frepr fparse (PBool b) = True"
| "json_value frepr fparse (PInt i) = True"
| "json_value frepr fparse (PFloat f) =
     (case f of Finite q \<Rightarrow> float_text_ok frepr fparse q | _ \<Rightarrow> False)"
| "json_value frepr fparse (PStr s) = text_ok s"
| "json_value frepr fparse (PList xs) = list_all (json_value frepr fparse) xs"
| "json_value frepr fparse (PDict kvs) =
     (distinct (map fst kvs) \<and>
      list_all (\<lambda>kv. text_ok (fst kv) \<and> json_value frepr fparse (snd kv)) kvs)"

text \<open>Notions used in the proofs about the scanner.\<close>

text \<open>What can follow a value in the output of \<open>json_dumps\<close>: nothing, a comma, or a closing bracket.\<close>

definition delim :: "pystr \<Rightarrow> bool" where
  "delim rest \<longleftrightarrow> rest = [] \<or> hd rest = 44 \<or> hd rest = 93 \<or> hd rest = 125"

definition value_start :: "nat \<Rightarrow> bool" where
  "value_start c \<longleftrightarrow>
     c = 110 \<or> c = 116 \<or> c = 102 \<or> c = 45 \<or> c = 34 \<or> c = 91 \<or> c = 123 \<or> is_digit c"

text \<open>One entry of an object in the output, without its opening quote.\<close>

definition entry_tail :: "(rat \<Rightarrow> pystr) \<Rightarrow> pystr \<times> pyval \<Rightarrow> pystr" where
  "entry_tail frepr kv = concat (map escape_char (fst kv)) @ 34 # 58 # json_dumps frepr (snd kv)"

definition char_ok :: "nat \<Rightarrow> bool" where
  "char_ok c \<longleftrightarrow> c < 1114112 \<and> \<not> (55296 \<le> c \<and> c < 57344)"

section \<open>models.py: conversions\<close>

record IngestRequest =
  source :: pyval
  readings :: "SensorReading list"

text \<open>\<open>SensorReading.from_dict\<close>: \<open>d.get\<close> exists on a dict only.\<close>

fun SensorReading_from_dict :: "pyval \<Rightarrow> exn + SensorReading" where
  "SensorReading_from_dict (PDict d) =
     Inr \<lparr>sensor_id = dict_get d (ustr ''sensor_id'') (PStr []),
          type = dict_get d (ustr ''type'') (PStr []),
          val = dict_get d (ustr ''value'') PNone,
          unit = dict_get d (ustr ''unit'') (PStr []),
          timestamp = dict_get d (ustr ''timestamp'') (PStr []),
          pump_status = dict_get d (ustr ''pump_status'') PNone,
          irrigation_mm = dict_get d (ustr ''irrigation_mm'') PNone\<rparr>"
| "SensorReading_from_dict v = Inl AttributeError"

text \<open>
  Iteration over an object in a comprehension: a list gives its elements, a
  \<open>str\<close> its characters, a dict its keys; the other objects are not iterable.
\<close>

fun py_iter :: "pyval \<Rightarrow> exn + pyval list" where
  "py_iter (PList xs) = Inr xs"
| "py_iter (PStr s) = Inr (map (\<lambda>c. PStr [c]) s)"
| "py_iter (PDict d) = Inr (map (\<lambda>kv. PStr (fst kv)) d)"
| "py_iter v = Inl TypeError"

fun map_raising :: "('a \<Rightarrow> exn + 'b) \<Rightarrow> 'a list \<Rightarrow> exn + 'b list" where
  "map_raising f [] = Inr []"
| "map_raising f (x # xs) =
     (case f x of
        Inl e \<Rightarrow> Inl e
      | Inr y \<Rightarrow> (case map_raising f xs of Inl e \<Rightarrow> Inl e | Inr ys \<Rightarrow> Inr (y # ys)))"

definition IngestRequest_from_dict :: "pyval \<Rightarrow> exn + IngestRequest" where
  "IngestRequest_from_dict d =
     (case py_get d (ustr ''readings'') (PList []) of
        Inl e \<Rightarrow> Inl e
      | Inr rs \<Rightarrow>
          (case py_iter rs of
             Inl e \<Rightarrow> Inl e
           | Inr items \<Rightarrow>
               (case map_raising SensorReading_from_dict items of
                  Inl e \<Rightarrow> Inl e
                | Inr parsed \<Rightarrow>
                    (case py_get d (ustr ''source'') (PStr []) of
                       Inl e \<Rightarrow> Inl e
                     | Inr src \<Rightarrow> Inr \<lparr>source = src, readings = parsed\<rparr>))))"

text \<open>
  \<open>to_dict\<close> of an error and of the response; \<open>text_of\<close> gives the text of an
  f-string message.
\<close>

definition ValidationError_to_dict :: "(message \<Rightarrow> pystr) \<Rightarrow> ValidationError \<Rightarrow> pyval" where
  "ValidationError_to_dict text_of e =
     PDict [(ustr ''sensor_id'', e_sensor_id e), (ustr ''field'', PStr (field e)),
            (ustr ''message'', PStr (text_of (message e)))]"

definition IngestResponse_to_dict :: "(message \<Rightarrow> pystr) \<Rightarrow> IngestResponse \<Rightarrow> pyval" where
  "IngestResponse_to_dict text_of r =
     PDict [(ustr ''request_id'', request_id r),
            (ustr ''accepted_count'', PInt (int (accepted_count r))),
            (ustr ''rejected_count'', PInt (int (rejected_count r))),
            (ustr ''errors'', PList (map (ValidationError_to_dict text_of) (errors r))),
            (ustr ''processing_time_ms'', PFloat (processing_time_ms r))]"

section \<open>server.py\<close>

text \<open>
  What one exchange takes from outside the program: the random octets and the
  clock of \<open>build_message\<close>, the measured time, and the functions of the Python
  library that the handler calls (\<open>lib_str\<close> is \<open>str()\<close> of an object in an
  f-string, \<open>lib_exc_str\<close> is \<open>str(e)\<close> of a library exception, \<open>lib_message\<close>
  the text of a validation message).
\<close>

record env =
  uuid_bits :: "128 word"
  clock_now :: pystr
  clock_elapsed_ms :: pyfloat
  lib_fromisoformat :: "pystr \<Rightarrow> bool"
  lib_loads :: "pystr \<Rightarrow> pyval option"
  lib_dumps :: "pyval \<Rightarrow> pystr"
  lib_str :: "pyval \<Rightarrow> pystr"
  lib_exc_str :: "exn \<Rightarrow> pystr"
  lib_message :: "message \<Rightarrow> pystr"

text \<open>
  The socket of one client: what \<open>recv\<close> gives, and the exception that
  \<open>sendall\<close> raises, if any (\<open>socket.timeout\<close> or another \<open>OSError\<close>).
\<close>

record connection =
  incoming :: "recv_event list"
  send_error :: "exn option"

text \<open>
  What the handler did: the data given to \<open>sendall\<close> calls that succeeded,
  that the socket was closed, and the exception that left the handler, if any.
\<close>

record outcome =
  sent :: "bytes list"
  conn_closed :: bool
  escaped :: "exn option"

text \<open>\<open>str(e)\<close> in the handler.\<close>

definition exc_str :: "env \<Rightarrow> exn \<Rightarrow> pystr" where
  "exc_str E e =
     (case e of
        ValueError Message_vide \<Rightarrow> ustr ''Message vide''
      | ValueError (Message_trop_volumineux n) \<Rightarrow>
          ustr ''Message trop volumineux (> '' @ digits_of n @ ustr '' octets)''
      | _ \<Rightarrow> lib_exc_str E e)"

text \<open>\<open>conn.sendall(encode_message(msg))\<close>\<close>

definition send_message :: "env \<Rightarrow> connection \<Rightarrow> pyval \<Rightarrow> exn + bytes list" where
  "send_message E conn msg =
     (case encode_message (lib_dumps E) msg of
        Inl e \<Rightarrow> Inl e
      | Inr data \<Rightarrow> (case send_error conn of Some e \<Rightarrow> Inl e | None \<Rightarrow> Inr [data]))"

text \<open>
  The \<open>try\<close> block of \<open>handle_client\<close>: the data sent, or the exception raised
  together with the value of \<open>request_id\<close> at that point.
\<close>

definition handle_request :: "env \<Rightarrow> connection \<Rightarrow> pyval \<Rightarrow> pyval \<Rightarrow> exn + bytes list" where
  "handle_request E conn msg rid =
     (case py_get msg (ustr ''payload'') (PDict []) of
        Inl e \<Rightarrow> Inl e
      | Inr payload \<Rightarrow>
          (case IngestRequest_from_dict payload of
             Inl e \<Rightarrow> Inl e
           | Inr ingest_req \<Rightarrow>
               (case ingest_response (lib_fromisoformat E) rid (readings ingest_req)
                       (clock_elapsed_ms E) of
                  Inl e \<Rightarrow> Inl e
                | Inr response \<Rightarrow>
                    send_message E conn
                      (build_message (uuid_bits E) (clock_now E) (PStr (ustr ''ingest_response''))
                         (IngestResponse_to_dict (lib_message E) response) rid))))"

definition try_block :: "env \<Rightarrow> connection \<Rightarrow> (exn \<times> pyval) + bytes list" where
  "try_block E conn =
     (case fst (recv_line (incoming conn) [] MAX_MESSAGE_SIZE) of
        Inl e \<Rightarrow> Inl (e, PStr (ustr ''unknown''))
      | Inr None \<Rightarrow> Inr []
      | Inr (Some line) \<Rightarrow>
          (case decode_message (lib_loads E) line of
             Inl e \<Rightarrow> Inl (e, PStr (ustr ''unknown''))
           | Inr msg \<Rightarrow>
               (case py_get msg (ustr ''request_id'') (PStr (ustr ''unknown'')) of
                  Inl e \<Rightarrow> Inl (e, PStr (ustr ''unknown''))
                | Inr rid \<Rightarrow>
                    (case py_get msg (ustr ''type'') (PStr []) of
                       Inl e \<Rightarrow> Inl (e, rid)
                     | Inr msg_type \<Rightarrow>
                         (case (if msg_type \<noteq> PStr (ustr ''ingest_request'') then
                                  send_message E conn
                                    (build_message (uuid_bits E) (clock_now E) (PStr (ustr ''error''))
                                       (PDict [(ustr ''message'',
                                          PStr (ustr ''Type non support'' @ [233] @ ustr '' : '' @
                                                lib_str E msg_type))])
                                       rid)
                                else handle_request E conn msg rid) of
                            Inl e \<Rightarrow> Inl (e, rid)
                          | Inr data \<Rightarrow> Inr data)))))"

text \<open>
  The \<open>except\<close> clauses, in the order of the source: \<open>socket.timeout\<close>, then
  \<open>ValueError\<close> and \<open>KeyError\<close> (an error message is sent, and an \<open>OSError\<close> of
  that sending is dropped), then \<open>OSError\<close>. Any other exception leaves the
  handler. The \<open>finally\<close> clause closes the socket in every case.
\<close>

definition send_parse_error :: "env \<Rightarrow> connection \<Rightarrow> pyval \<Rightarrow> exn \<Rightarrow> outcome" where
  "send_parse_error E conn rid e =
     (case send_message E conn
             (build_message (uuid_bits E) (clock_now E) (PStr (ustr ''error''))
                (PDict [(ustr ''message'', PStr (exc_str E e))]) rid) of
        Inr data \<Rightarrow> \<lparr>sent = data, conn_closed = True, escaped = None\<rparr>
      | Inl SocketTimeout \<Rightarrow> \<lparr>sent = [], conn_closed = True, escaped = None\<rparr>
      | Inl OSError \<Rightarrow> \<lparr>sent = [], conn_closed = True, escaped = None\<rparr>
      | Inl x \<Rightarrow> \<lparr>sent = [], conn_closed = True, escaped = Some x\<rparr>)"

definition on_exception :: "env \<Rightarrow> connection \<Rightarrow> pyval \<Rightarrow> exn \<Rightarrow> outcome" where
  "on_exception E conn rid e =
     (case e of
        SocketTimeout \<Rightarrow> \<lparr>sent = [], conn_closed = True, escaped = None\<rparr>
      | ValueError x \<Rightarrow> send_parse_error E conn rid e
      | KeyError \<Rightarrow> send_parse_error E conn rid e
      | OSError \<Rightarrow> \<lparr>sent = [], conn_closed = True, escaped = None\<rparr>
      | _ \<Rightarrow> \<lparr>sent = [], conn_closed = True, escaped = Some e\<rparr>)"

definition handle_client :: "env \<Rightarrow> connection \<Rightarrow> outcome" where
  "handle_client E conn =
     (case try_block E conn of
        Inr data \<Rightarrow> \<lparr>sent = data, conn_closed = True, escaped = None\<rparr>
      | Inl (e, rid) \<Rightarrow> on_exception E conn rid e)"

text \<open>
  The accept loop of \<open>run_server\<close> over what \<open>srv.accept()\<close> gives: a client,
  an \<open>OSError\<close>, or Ctrl+C. The loop catches \<open>KeyboardInterrupt\<close> and \<open>OSError\<close>
  only; another exception of \<open>handle_client\<close> ends the server.
\<close>

datatype accept_event = Client env connection | AcceptError | Interrupt

datatype server_end = Listening | Stopped | Crashed exn

fun run_server :: "accept_event list \<Rightarrow> outcome list \<times> server_end" where
  "run_server [] = ([], Listening)"
| "run_server (Interrupt # rest) = ([], Stopped)"
| "run_server (AcceptError # rest) = run_server rest"
| "run_server (Client E conn # rest) =
     (let out = handle_client E conn
      in case escaped out of
           None \<Rightarrow> (out # fst (run_server rest), snd (run_server rest))
         | Some SocketTimeout \<Rightarrow> (out # fst (run_server rest), snd (run_server rest))
         | Some OSError \<Rightarrow> (out # fst (run_server rest), snd (run_server rest))
         | Some e \<Rightarrow> ([out], Crashed e))"

section \<open>Example inputs\<close>

text \<open>
  A stand-in for \<open>datetime.fromisoformat\<close> in the examples: it accepts the form
  \<open>YYYY-MM-DDTHH:MM:SS\<close> with a day that every month has, which every version of
  the library parses, and nothing else.
\<close>

definition digits_value :: "pystr \<Rightarrow> nat option" where
  "digits_value ds =
     (if ds \<noteq> [] \<and> (\<forall>d \<in> set ds. 48 \<le> d \<and> d \<le> 57)
      then Some (foldl (\<lambda>n d. 10 * n + (d - 48)) 0 ds) else None)"

definition field_between :: "pystr \<Rightarrow> nat \<Rightarrow> nat \<Rightarrow> bool" where
  "field_between ds lo hi = (case digits_value ds of None \<Rightarrow> False | Some n \<Rightarrow> lo \<le> n \<and> n \<le> hi)"

definition fromisoformat_seconds :: "pystr \<Rightarrow> bool" where
  "fromisoformat_seconds s \<longleftrightarrow>
     length s = 19 \<and>
     field_between (take 4 s) 1 9999 \<and> s ! 4 = 45 \<and>
     field_between (take 2 (drop 5 s)) 1 12 \<and> s ! 7 = 45 \<and>
     field_between (take 2 (drop 8 s)) 1 28 \<and> s ! 10 = 84 \<and>
     field_between (take 2 (drop 11 s)) 0 23 \<and> s ! 13 = 58 \<and>
     field_between (take 2 (drop 14 s)) 0 59 \<and> s ! 16 = 58 \<and>
     field_between (take 2 (drop 17 s)) 0 59"

definition reading_text_value :: SensorReading where
  "reading_text_value =
     \<lparr>sensor_id = PStr (ustr ''t01''), type = PStr (ustr ''temperature''),
      val = PStr (ustr ''abc''), unit = PStr (ustr ''C''),
      timestamp = PStr (ustr ''2026-02-23T10:00:00''),
      pump_status = PNone, irrigation_mm = PNone\<rparr>"

definition reading_boundary :: SensorReading where
  "reading_boundary =
     \<lparr>sensor_id = PStr (ustr ''t01''), type = PStr (ustr ''temperature''),
      val = PFloat (Finite 60), unit = PStr (ustr ''C''),
      timestamp = PStr (ustr ''2026-02-23T10:00:00''),
      pump_status = PNone, irrigation_mm = PNone\<rparr>"

definition reading_nan :: SensorReading where
  "reading_nan =
     \<lparr>sensor_id = PStr (ustr ''t01''), type = PStr (ustr ''temperature''),
      val = PFloat NaN, unit = PStr (ustr ''C''),
      timestamp = PStr (ustr ''2026-02-23T10:00:00''),
      pump_status = PNone, irrigation_mm = PNone\<rparr>"

definition reading_true :: SensorReading where
  "reading_true =
     \<lparr>sensor_id = PStr (ustr ''t01''), type = PStr (ustr ''temperature''),
      val = PBool True, unit = PStr (ustr ''C''),
      timestamp = PStr (ustr ''2026-02-23T10:00:00''),
      pump_status = PNone, irrigation_mm = PNone\<rparr>"

definition reading_two_errors :: SensorReading where
  "reading_two_errors =
     \<lparr>sensor_id = PStr [], type = PStr (ustr ''temperature''),
      val = PFloat (Finite (- 999)), unit = PStr (ustr ''C''),
      timestamp = PStr (ustr ''2026-02-23T10:00:00''),
      pump_status = PNone, irrigation_mm = PNone\<rparr>"

definition line_not_an_object :: bytes where
  "line_not_an_object = map of_nat (ustr ''[]'') @ [10]"

definition line_text_irrigation :: bytes where
  \<open>line_text_irrigation =
     map of_nat (ustr ''{"type":"ingest_request","payload":{"readings":[{"pump_status":"OFF","irrigation_mm":"x"}]}}'')
       @ [10]\<close>

definition text_irrigation :: pystr where
  \<open>text_irrigation =
     ustr ''{"type":"ingest_request","payload":{"readings":[{"pump_status":"OFF","irrigation_mm":"x"}]}}''\<close>

definition msg_text_irrigation :: pyval where
  "msg_text_irrigation =
     PDict [(ustr ''type'', PStr (ustr ''ingest_request'')),
            (ustr ''payload'',
             PDict [(ustr ''readings'',
                     PList [PDict [(ustr ''pump_status'', PStr (ustr ''OFF'')),
                                   (ustr ''irrigation_mm'', PStr (ustr ''x''))]])])]"

text \<open>
  Stand-ins for \<open>float.__repr__\<close> and \<open>float\<close> in the examples, right on the one
  float that the examples hold, 22.0.
\<close>

definition example_float_repr :: "rat \<Rightarrow> pystr" where
  "example_float_repr q = ustr ''22.0''"

definition example_float :: "pystr \<Rightarrow> pyfloat" where
  "example_float s = Finite 22"

definition example_payload :: pyval where
  "example_payload =
     PDict [(ustr ''status'', PStr (ustr ''alive'')), (ustr ''value'', PFloat (Finite 22))]"

definition example_env :: env where
  "example_env =
     \<lparr>uuid_bits = 0, clock_now = ustr ''2026-02-23T10:00:00'', clock_elapsed_ms = Finite 0,
      lib_fromisoformat = fromisoformat_seconds,
      lib_loads = json_loads example_float, lib_dumps = json_dumps example_float_repr,
      lib_str = (\<lambda>v. []), lib_exc_str = (\<lambda>e. []), lib_message = (\<lambda>m. [])\<rparr>"

section \<open>Properties of the validation\<close>

subsection \<open>Fields of the errors of each check\<close>

lemma ustr_eq_Nil [simp]: "ustr s = [] \<longleftrightarrow> s = []"
  by (simp add: ustr_def)

lemma strip_t01: "strip (ustr ''t01'') \<noteq> []"
  by (simp add: strip_def ustr_def isspace_def)

lemma iso_example: "fromisoformat_seconds (ustr ''2026-02-23T10:00:00'')"
  by (simp add: fromisoformat_seconds_def field_between_def digits_value_def ustr_def)

lemma map_of_temperature:
  "map_of VALUE_RANGES (ustr ''temperature'') = Some (Finite (- 50), Finite 60)"
  by (simp add: VALUE_RANGES_def ustr_def)

lemma check_value_non_numeric:
  "\<not> is_int_or_float (val r) \<Longrightarrow>
   check_value r = Inr [\<lparr>e_sensor_id = sid r, field = ustr ''value'',
                          message = Valeur_non_numerique (val r)\<rparr>]"
  by (simp add: check_value_def)

lemma check_sensor_id_fields:
  "check_sensor_id r = Inr es \<Longrightarrow> e \<in> set es \<Longrightarrow> field e = ustr ''sensor_id''"
  by (auto simp: check_sensor_id_def Let_def split: if_splits pyval.splits)

lemma check_timestamp_fields:
  "e \<in> set (check_timestamp fromiso r) \<Longrightarrow> field e = ustr ''timestamp''"
  by (auto simp: check_timestamp_def Let_def split: if_splits pyval.splits)

lemma check_pump_fields:
  "check_pump r = Inr es \<Longrightarrow> e \<in> set es \<Longrightarrow> field e = ustr ''pump_status''"
  by (auto simp: check_pump_def split: if_splits option.splits)

lemma check_sensor_id_str:
  "is_str (sensor_id r) \<Longrightarrow> \<exists>es. check_sensor_id r = Inr es"
  by (cases "sensor_id r") (auto simp: check_sensor_id_def Let_def)

lemma check_pump_declared:
  "irrigation_mm r = PNone \<or> is_int_or_float (irrigation_mm r) \<Longrightarrow> \<exists>es. check_pump r = Inr es"
  by (cases "irrigation_mm r") (auto simp: check_pump_def)

lemma field_names_distinct:
  "ustr ''sensor_id'' \<noteq> ustr ''value''" "ustr ''timestamp'' \<noteq> ustr ''value''"
  "ustr ''pump_status'' \<noteq> ustr ''value''"
  by (simp_all add: ustr_def)

lemma filter_other_field:
  "(\<And>e. e \<in> set es \<Longrightarrow> field e = f) \<Longrightarrow> f \<noteq> g \<Longrightarrow> filter (\<lambda>e. field e = g) es = []"
  by (induction es) auto

lemma value_errors_of_validate:
  assumes "check_sensor_id r = Inr e1" "check_value r = Inr e2" "check_pump r = Inr e4"
  shows "validate_single_reading fromiso r = Inr (e1 @ e2 @ check_timestamp fromiso r @ e4)"
    and "filter (\<lambda>e. field e = ustr ''value'') (e1 @ e2 @ check_timestamp fromiso r @ e4)
         = filter (\<lambda>e. field e = ustr ''value'') e2"
proof -
  show "validate_single_reading fromiso r = Inr (e1 @ e2 @ check_timestamp fromiso r @ e4)"
    using assms by (simp add: validate_single_reading_def)
  have 1: "filter (\<lambda>e. field e = ustr ''value'') e1 = []"
    using check_sensor_id_fields [OF assms(1)] field_names_distinct(1)
    by (rule filter_other_field)
  have 3: "filter (\<lambda>e. field e = ustr ''value'') (check_timestamp fromiso r) = []"
    using check_timestamp_fields field_names_distinct(2)
    by (rule filter_other_field)
  have 4: "filter (\<lambda>e. field e = ustr ''value'') e4 = []"
    using check_pump_fields [OF assms(3)] field_names_distinct(3)
    by (rule filter_other_field)
  show "filter (\<lambda>e. field e = ustr ''value'') (e1 @ e2 @ check_timestamp fromiso r @ e4)
         = filter (\<lambda>e. field e = ustr ''value'') e2"
    by (simp add: 1 3 4)
qed

lemma table_ranges:
  "map_of VALUE_RANGES t = Some (vmin, vmax) \<Longrightarrow> \<exists>a b. vmin = Finite a \<and> vmax = Finite b"
  by (auto simp: VALUE_RANGES_def split: if_splits)

lemma float_le_lt:
  "v \<noteq> NaN \<Longrightarrow> (\<not> (float_le (Finite a) v \<and> float_le v (Finite b))) \<longleftrightarrow>
     (float_lt v (Finite a) \<or> float_lt (Finite b) v)"
  by (cases v) auto

lemma check_value_range:
  assumes "is_int_or_float (val r)" "number_of (val r) = Some v"
    and "VALUE_RANGES_get (type r) = Inr (Some (vmin, vmax))"
  shows "check_value r =
           Inr (if \<not> (float_le vmin v \<and> float_le v vmax)
                then [\<lparr>e_sensor_id = sid r, field = ustr ''value'',
                       message = Valeur_hors_plage (val r) vmin vmax (type r)\<rparr>]
                else [])"
  using assms by (simp add: check_value_def)

lemma check_value_no_range:
  assumes "is_int_or_float (val r)" "VALUE_RANGES_get (type r) = Inr None"
  shows "check_value r = Inr []"
  using assms by (simp add: check_value_def)

lemma is_int_or_float_number: "is_int_or_float x \<Longrightarrow> \<exists>v. number_of x = Some v"
  by (cases x) auto

lemma validate_value_errors:
  assumes "is_str (sensor_id r)"
    and "irrigation_mm r = PNone \<or> is_int_or_float (irrigation_mm r)"
    and "check_value r = Inr e2"
  shows "\<exists>errs. validate_single_reading fromiso r = Inr errs \<and>
           filter (\<lambda>e. field e = ustr ''value'') errs = filter (\<lambda>e. field e = ustr ''value'') e2"
proof -
  obtain e1 where e1: "check_sensor_id r = Inr e1"
    using check_sensor_id_str [OF assms(1)] by blast
  obtain e4 where e4: "check_pump r = Inr e4"
    using check_pump_declared [OF assms(2)] by blast
  show ?thesis
    using value_errors_of_validate [OF e1 assms(3) e4, of fromiso] by simp
qed

lemma has_value_error_filter:
  "(\<exists>e \<in> set errs. field e = f) \<longleftrightarrow> filter (\<lambda>e. field e = f) errs \<noteq> []"
  by (simp add: filter_empty_conv)

subsection \<open>Non-numeric values\<close>

text \<open>
  C3. For every reading whose value is not a number (\<open>isinstance(value, (int, float))\<close>
  is false), \<open>validate_single_reading\<close> returns a list with exactly one error of
  field \<open>value\<close>, the non-numeric one, and no range error: the range check is not
  run, whatever the type of the reading is. The reading has a \<open>str\<close> as
  \<open>sensor_id\<close> and \<open>None\<close> or a number as \<open>irrigation_mm\<close>, as its class declares.
\<close>

theorem non_numeric_value_one_error:
  assumes "is_str (sensor_id r)"
    and "irrigation_mm r = PNone \<or> is_int_or_float (irrigation_mm r)"
    and "\<not> is_int_or_float (val r)"
  shows "\<exists>errs. validate_single_reading fromiso r = Inr errs \<and>
           filter (\<lambda>e. field e = ustr ''value'') errs =
             [\<lparr>e_sensor_id = sid r, field = ustr ''value'',
               message = Valeur_non_numerique (val r)\<rparr>]"
proof -
  obtain e1 where e1: "check_sensor_id r = Inr e1"
    using check_sensor_id_str [OF assms(1)] by blast
  obtain e4 where e4: "check_pump r = Inr e4"
    using check_pump_declared [OF assms(2)] by blast
  note e2 = check_value_non_numeric [OF assms(3)]
  show ?thesis
    using value_errors_of_validate [OF e1 e2 e4, of fromiso] by simp
qed

theorem non_numeric_value_one_error_witness:
  "is_str (sensor_id reading_text_value) \<and>
   (irrigation_mm reading_text_value = PNone \<or> is_int_or_float (irrigation_mm reading_text_value)) \<and>
   \<not> is_int_or_float (val reading_text_value) \<and>
   (\<exists>errs. validate_single_reading fromisoformat_seconds reading_text_value = Inr errs \<and>
      filter (\<lambda>e. field e = ustr ''value'') errs =
        [\<lparr>e_sensor_id = PStr (ustr ''t01''), field = ustr ''value'',
          message = Valeur_non_numerique (PStr (ustr ''abc''))\<rparr>])"
  using non_numeric_value_one_error [of reading_text_value fromisoformat_seconds]
  by (simp add: reading_text_value_def sid_def)

subsection \<open>The range check\<close>

text \<open>
  C4, as amended. For every reading with a numeric value \<open>v\<close> and a type of the
  range table, \<open>validate_single_reading\<close> returns an error of field \<open>value\<close> if
  and only if \<open>v\<close> is strictly below \<open>vmin\<close>, strictly above \<open>vmax\<close>, or NaN (the
  source tests \<open>not (vmin <= value <= vmax)\<close>, and every comparison with NaN is
  false); the bounds themselves are accepted. For a type that is not a key of
  the table there is no error of field \<open>value\<close>, whatever the number.
\<close>

theorem range_check_amended:
  assumes "is_str (sensor_id r)"
    and "irrigation_mm r = PNone \<or> is_int_or_float (irrigation_mm r)"
    and "is_int_or_float (val r)" and "number_of (val r) = Some v"
  shows "(\<forall>t vmin vmax. type r = PStr t \<and> map_of VALUE_RANGES t = Some (vmin, vmax) \<longrightarrow>
            (\<exists>errs. validate_single_reading fromiso r = Inr errs \<and>
               ((\<exists>e \<in> set errs. field e = ustr ''value'') \<longleftrightarrow>
                  (float_lt v vmin \<or> float_lt vmax v \<or> v = NaN)))) \<and>
         (VALUE_RANGES_get (type r) = Inr None \<longrightarrow>
            (\<exists>errs. validate_single_reading fromiso r = Inr errs \<and>
               \<not> (\<exists>e \<in> set errs. field e = ustr ''value'')))"
proof (intro conjI allI impI)
  fix t vmin vmax
  assume t: "type r = PStr t \<and> map_of VALUE_RANGES t = Some (vmin, vmax)"
  then have get: "VALUE_RANGES_get (type r) = Inr (Some (vmin, vmax))" by simp
  obtain a b where ab: "vmin = Finite a" "vmax = Finite b"
    using table_ranges t by blast
  let ?out = "\<not> (float_le vmin v \<and> float_le v vmax)"
  have out: "?out \<longleftrightarrow> (float_lt v vmin \<or> float_lt vmax v \<or> v = NaN)"
    using float_le_lt [of v a b] ab by (cases "v = NaN") auto
  note cv = check_value_range [OF assms(3) assms(4) get]
  obtain errs where errs: "validate_single_reading fromiso r = Inr errs"
    and f: "filter (\<lambda>e. field e = ustr ''value'') errs =
            filter (\<lambda>e. field e = ustr ''value'')
              (if ?out then [\<lparr>e_sensor_id = sid r, field = ustr ''value'',
                   message = Valeur_hors_plage (val r) vmin vmax (type r)\<rparr>] else [])"
    using validate_value_errors [OF assms(1) assms(2) cv, of fromiso] by blast
  have "(\<exists>e \<in> set errs. field e = ustr ''value'') \<longleftrightarrow> ?out"
    unfolding has_value_error_filter f by simp
  with errs out
  show "\<exists>errs. validate_single_reading fromiso r = Inr errs \<and>
               ((\<exists>e \<in> set errs. field e = ustr ''value'') \<longleftrightarrow>
                  (float_lt v vmin \<or> float_lt vmax v \<or> v = NaN))"
    by blast
next
  assume get: "VALUE_RANGES_get (type r) = Inr None"
  note cv = check_value_no_range [OF assms(3) get]
  obtain errs where errs: "validate_single_reading fromiso r = Inr errs"
    and f: "filter (\<lambda>e. field e = ustr ''value'') errs = filter (\<lambda>e. field e = ustr ''value'') []"
    using validate_value_errors [OF assms(1) assms(2) cv, of fromiso] by blast
  have "\<not> (\<exists>e \<in> set errs. field e = ustr ''value'')"
    unfolding has_value_error_filter f by simp
  with errs
  show "\<exists>errs. validate_single_reading fromiso r = Inr errs \<and>
               \<not> (\<exists>e \<in> set errs. field e = ustr ''value'')"
    by blast
qed

theorem range_check_amended_witness:
  "is_str (sensor_id reading_boundary) \<and>
   (irrigation_mm reading_boundary = PNone \<or> is_int_or_float (irrigation_mm reading_boundary)) \<and>
   is_int_or_float (val reading_boundary) \<and>
   number_of (val reading_boundary) = Some (Finite 60) \<and>
   type reading_boundary = PStr (ustr ''temperature'') \<and>
   map_of VALUE_RANGES (ustr ''temperature'') = Some (Finite (- 50), Finite 60) \<and>
   (\<exists>errs. validate_single_reading fromisoformat_seconds reading_boundary = Inr errs \<and>
      \<not> (\<exists>e \<in> set errs. field e = ustr ''value''))"
proof -
  have r: "is_str (sensor_id reading_boundary)"
    "irrigation_mm reading_boundary = PNone \<or> is_int_or_float (irrigation_mm reading_boundary)"
    "is_int_or_float (val reading_boundary)"
    "number_of (val reading_boundary) = Some (Finite 60)"
    "type reading_boundary = PStr (ustr ''temperature'')"
    by (simp_all add: reading_boundary_def)
  from range_check_amended [OF r(1-4), of fromisoformat_seconds] r(5) map_of_temperature
  have "\<exists>errs. validate_single_reading fromisoformat_seconds reading_boundary = Inr errs \<and>
      ((\<exists>e \<in> set errs. field e = ustr ''value'') \<longleftrightarrow>
         (float_lt (Finite 60) (Finite (- 50)) \<or> float_lt (Finite 60) (Finite 60) \<or>
          Finite 60 = NaN))"
    by blast
  then show ?thesis
    using r map_of_temperature by simp
qed

text \<open>
  C4 as stated fails on NaN, which \<open>json.loads\<close> accepts and \<open>isinstance\<close> counts
  as a float: the reading of type temperature with value NaN gets an error of
  field \<open>value\<close>, and NaN is neither strictly below -50 nor strictly above 60.
\<close>

theorem range_check_nan_counterexample:
  "validate_single_reading fromisoformat_seconds reading_nan =
     Inr [\<lparr>e_sensor_id = PStr (ustr ''t01''), field = ustr ''value'',
           message = Valeur_hors_plage (PFloat NaN) (Finite (- 50)) (Finite 60)
                       (PStr (ustr ''temperature''))\<rparr>] \<and>
   map_of VALUE_RANGES (ustr ''temperature'') = Some (Finite (- 50), Finite 60) \<and>
   \<not> float_lt NaN (Finite (- 50)) \<and> \<not> float_lt (Finite 60) NaN"
  by (simp add: validate_single_reading_def check_sensor_id_def check_value_def
      check_pump_def check_timestamp_def reading_nan_def sid_def strip_t01 iso_example
      map_of_temperature)

subsection \<open>Boolean values\<close>

lemma check_value_bool:
  assumes "val r = PBool b" "type r = PStr t"
  shows "check_value r = Inr []"
proof (cases "map_of VALUE_RANGES t")
  case None
  with assms show ?thesis by (simp add: check_value_def)
next
  case (Some mm)
  then have "mm \<in> {(Finite (- 50), Finite 60), (Finite 0, Finite 100), (Finite 0, Finite 500),
      (Finite 0, Finite 200), (Finite 0, Finite 300)}"
    by (auto simp: VALUE_RANGES_def split: if_splits)
  with Some assms show ?thesis
    by (auto simp: check_value_def)
qed

lemma check_value_bool_as_int:
  assumes "val r = PBool b"
  shows "map_sum id (map field) (check_value r) =
         map_sum id (map field) (check_value (r\<lparr>val := PInt (if b then 1 else 0)\<rparr>))"
  using assms
  by (auto simp: check_value_def sid_def split: sum.splits option.splits)

text \<open>
  C9. A reading whose value is a boolean passes the numeric check (\<open>bool\<close> is a
  subclass of \<open>int\<close>) and is compared as 1 or 0: the outcome has the same error
  fields as for the integer, and for a type that is a \<open>str\<close>, temperature
  among them, there is no error of field \<open>value\<close>.
\<close>

theorem bool_value_is_numeric:
  assumes "is_str (sensor_id r)"
    and "irrigation_mm r = PNone \<or> is_int_or_float (irrigation_mm r)"
    and "val r = PBool b"
  shows "is_int_or_float (val r) \<and>
         number_of (val r) = number_of (PInt (if b then 1 else 0)) \<and>
         map_sum id (map field) (validate_single_reading fromiso r) =
           map_sum id (map field)
             (validate_single_reading fromiso (r\<lparr>val := PInt (if b then 1 else 0)\<rparr>)) \<and>
         (\<forall>t. type r = PStr t \<longrightarrow>
            (\<exists>errs. validate_single_reading fromiso r = Inr errs \<and>
               \<not> (\<exists>e \<in> set errs. field e = ustr ''value'')))"
proof (intro conjI allI impI)
  show "is_int_or_float (val r)" using assms(3) by simp
  show "number_of (val r) = number_of (PInt (if b then 1 else 0))" using assms(3) by simp
next
  let ?r = "r\<lparr>val := PInt (if b then 1 else 0)\<rparr>"
  have same: "check_sensor_id ?r = check_sensor_id r" "check_pump ?r = check_pump r"
    "check_timestamp fromiso ?r = check_timestamp fromiso r"
    by (simp_all add: check_sensor_id_def check_pump_def check_timestamp_def sid_def
        split: option.splits)
  obtain e1 where e1: "check_sensor_id r = Inr e1"
    using check_sensor_id_str [OF assms(1)] by blast
  obtain e4 where e4: "check_pump r = Inr e4"
    using check_pump_declared [OF assms(2)] by blast
  show "map_sum id (map field) (validate_single_reading fromiso r) =
        map_sum id (map field) (validate_single_reading fromiso ?r)"
    using check_value_bool_as_int [OF assms(3)]
    by (cases "check_value r"; cases "check_value ?r")
       (simp_all add: validate_single_reading_def same e1 e4)
next
  fix t assume t: "type r = PStr t"
  note cv = check_value_bool [OF assms(3) t]
  obtain errs where errs: "validate_single_reading fromiso r = Inr errs"
    and f: "filter (\<lambda>e. field e = ustr ''value'') errs = filter (\<lambda>e. field e = ustr ''value'') []"
    using validate_value_errors [OF assms(1) assms(2) cv, of fromiso] by blast
  have "\<not> (\<exists>e \<in> set errs. field e = ustr ''value'')"
    unfolding has_value_error_filter f by simp
  with errs
  show "\<exists>errs. validate_single_reading fromiso r = Inr errs \<and>
               \<not> (\<exists>e \<in> set errs. field e = ustr ''value'')"
    by blast
qed

theorem bool_value_is_numeric_witness:
  "is_str (sensor_id reading_true) \<and>
   (irrigation_mm reading_true = PNone \<or> is_int_or_float (irrigation_mm reading_true)) \<and>
   val reading_true = PBool True \<and> type reading_true = PStr (ustr ''temperature'') \<and>
   (\<exists>errs. validate_single_reading fromisoformat_seconds reading_true = Inr errs \<and>
      \<not> (\<exists>e \<in> set errs. field e = ustr ''value''))"
proof -
  have r: "is_str (sensor_id reading_true)"
    "irrigation_mm reading_true = PNone \<or> is_int_or_float (irrigation_mm reading_true)"
    "val reading_true = PBool True" "type reading_true = PStr (ustr ''temperature'')"
    by (simp_all add: reading_true_def)
  from bool_value_is_numeric [OF r(1-3), of fromisoformat_seconds] r(4)
  have "\<exists>errs. validate_single_reading fromisoformat_seconds reading_true = Inr errs \<and>
      \<not> (\<exists>e \<in> set errs. field e = ustr ''value'')"
    by blast
  then show ?thesis using r by simp
qed

subsection \<open>The counts of the response\<close>

text \<open>
  What the two counts are: \<open>accepted_count\<close> is the number of readings without
  error, \<open>rejected_count\<close> the total number of errors.
\<close>

lemma validate_loop_result:
  "validate_loop fromiso rs acc errs = Inr (acc', errs') \<Longrightarrow>
     acc' = acc @ filter (\<lambda>r. validate_single_reading fromiso r = Inr []) rs \<and>
     errs' = errs @ concat (map (\<lambda>r. case validate_single_reading fromiso r of
                                         Inl x \<Rightarrow> [] | Inr es \<Rightarrow> es) rs)"
proof (induction rs arbitrary: acc errs)
  case Nil
  then show ?case by simp
next
  case (Cons r rs)
  show ?case
  proof (cases "validate_single_reading fromiso r")
    case (Inl x)
    with Cons.prems show ?thesis by simp
  next
    case (Inr es)
    show ?thesis
    proof (cases "es = []")
      case True
      with Inr Cons.prems
      have "validate_loop fromiso rs (acc @ [r]) errs = Inr (acc', errs')" by simp
      from Cons.IH [OF this] Inr True show ?thesis by simp
    next
      case False
      with Inr Cons.prems
      have "validate_loop fromiso rs acc (errs @ es) = Inr (acc', errs')" by simp
      from Cons.IH [OF this] Inr False show ?thesis by simp
    qed
  qed
qed

lemma ingest_response_counts:
  assumes "ingest_response fromiso rid batch t = Inr resp"
  shows "accepted_count resp =
           length (filter (\<lambda>r. validate_single_reading fromiso r = Inr []) batch)"
    and "rejected_count resp =
           (\<Sum>r\<leftarrow>batch. case validate_single_reading fromiso r of
                               Inl x \<Rightarrow> 0 | Inr es \<Rightarrow> length es)"
proof -
  obtain acc errs where v: "validate_readings fromiso batch = Inr (acc, errs)"
    and resp: "resp = \<lparr>request_id = rid, accepted_count = length acc,
                       rejected_count = length errs, errors = errs,
                       processing_time_ms = t\<rparr>"
    using assms by (auto simp: ingest_response_def split: sum.splits)
  from v have r: "acc = filter (\<lambda>r. validate_single_reading fromiso r = Inr []) batch"
    "errs = concat (map (\<lambda>r. case validate_single_reading fromiso r of
                                 Inl x \<Rightarrow> [] | Inr es \<Rightarrow> es) batch)"
    using validate_loop_result [of fromiso batch "[]" "[]" acc errs]
    by (simp_all add: validate_readings_def)
  show "accepted_count resp =
           length (filter (\<lambda>r. validate_single_reading fromiso r = Inr []) batch)"
    by (simp add: resp r(1))
  have "length errs = (\<Sum>r\<leftarrow>batch. case validate_single_reading fromiso r of
                               Inl x \<Rightarrow> 0 | Inr es \<Rightarrow> length es)"
    unfolding r(2) length_concat map_map
    by (rule arg_cong [where f = sum_list], rule map_cong) (auto split: sum.splits)
  then show "rejected_count resp =
           (\<Sum>r\<leftarrow>batch. case validate_single_reading fromiso r of
                               Inl x \<Rightarrow> 0 | Inr es \<Rightarrow> length es)"
    by (simp add: resp)
qed

text \<open>
  C1. The claim says that \<open>rejected_count\<close> is the number of readings with one
  or more errors, so that the two counts add up to the size of the batch. The
  source sets \<open>rejected_count = len(errors)\<close>: a batch of one reading with an
  empty \<open>sensor_id\<close> and the value -999 has two errors, and the response counts
  0 accepted and 2 rejected readings for a batch of size 1.
\<close>

theorem rejected_count_counts_errors:
  "ingest_response fromisoformat_seconds (PStr (ustr ''req-1'')) [reading_two_errors] (Finite 0) =
     Inr \<lparr>request_id = PStr (ustr ''req-1''), accepted_count = 0, rejected_count = 2,
          errors =
            [\<lparr>e_sensor_id = PStr (ustr ''(vide)''), field = ustr ''sensor_id'',
              message = Sensor_id_obligatoire\<rparr>,
             \<lparr>e_sensor_id = PStr (ustr ''(vide)''), field = ustr ''value'',
              message = Valeur_hors_plage (PFloat (Finite (- 999))) (Finite (- 50)) (Finite 60)
                          (PStr (ustr ''temperature''))\<rparr>],
          processing_time_ms = Finite 0\<rparr>"
  by (simp add: ingest_response_def validate_readings_def validate_single_reading_def
      check_sensor_id_def check_value_def check_pump_def check_timestamp_def
      reading_two_errors_def sid_def iso_example map_of_temperature)

section \<open>Properties of the protocol\<close>

subsection \<open>Request identifiers\<close>

lemma uuid_str_length: "length (uuid_str u) = 36"
  by (simp add: uuid_str_def hex32_def Let_def)

text \<open>
  C10. \<open>build_message\<close> takes a fresh random identifier when no \<open>request_id\<close>
  is given (\<open>None\<close>) and also when the empty string is given, since it tests
  \<open>request_id or ...\<close>; the identifier has 36 characters, and no message built by
  \<open>build_message\<close> has the empty string as \<open>request_id\<close>.
\<close>

theorem build_message_request_id:
  "py_getitem (build_message rnd now msg_type payload PNone) (ustr ''request_id'')
     = Inr (PStr (uuid_str (uuid4 rnd))) \<and>
   py_getitem (build_message rnd now msg_type payload (PStr [])) (ustr ''request_id'')
     = Inr (PStr (uuid_str (uuid4 rnd))) \<and>
   length (uuid_str (uuid4 rnd)) = 36 \<and>
   py_getitem (build_message rnd now msg_type payload rid) (ustr ''request_id'')
     \<noteq> Inr (PStr [])"
proof -
  have "uuid_str (uuid4 rnd) \<noteq> []"
    using uuid_str_length [of "uuid4 rnd"] by auto
  then show ?thesis
    by (auto simp: build_message_def ustr_def uuid_str_length)
qed

subsection \<open>One call of \<open>recv_line\<close>\<close>

text \<open>
  C8, as amended. When the peer has closed (\<open>recv\<close> returns no octets) and the
  buffer holds no newline: a non-empty buffer that is valid UTF-8 is returned
  decoded as the last line and the buffer is emptied; a non-empty buffer that
  is not valid UTF-8 raises \<open>UnicodeDecodeError\<close> and stays as it is; and
  \<open>None\<close> (end of stream) is returned if and only if the buffer is empty.
\<close>

theorem recv_line_at_close:
  assumes "find_newline buffer = None"
    and "conn = [] \<or> (\<exists>rest. conn = Data [] # rest)"
  shows "(\<forall>line. buffer \<noteq> [] \<and> utf8_decode buffer = Some line \<longrightarrow>
            fst (recv_line conn buffer max_size) = Inr (Some line) \<and>
            snd (snd (recv_line conn buffer max_size)) = []) \<and>
         (buffer \<noteq> [] \<and> utf8_decode buffer = None \<longrightarrow>
            fst (recv_line conn buffer max_size) = Inl (ValueError UnicodeDecodeError) \<and>
            snd (snd (recv_line conn buffer max_size)) = buffer) \<and>
         (fst (recv_line conn buffer max_size) = Inr None \<longleftrightarrow> buffer = [])"
proof -
  have r: "recv_line conn buffer max_size =
           (fst (at_close buffer), tl conn, snd (at_close buffer))"
    using assms recv_line_closed recv_line_empty_chunk by auto
  show ?thesis
    unfolding r by (auto simp: at_close_def split: option.splits)
qed

theorem recv_line_at_close_witness:
  "find_newline [104, 105] = None \<and> utf8_decode [104, 105] = Some (ustr ''hi'') \<and>
   fst (recv_line [] [104, 105] MAX_MESSAGE_SIZE) = Inr (Some (ustr ''hi'')) \<and>
   snd (snd (recv_line [] [104, 105] MAX_MESSAGE_SIZE)) = [] \<and>
   fst (recv_line [] [] MAX_MESSAGE_SIZE) = Inr None"
proof -
  have n: "find_newline [104, 105] = None" "find_newline [] = None"
    by (simp_all add: find_newline_def)
  have d: "utf8_decode [104, 105] = Some (ustr ''hi'')"
    by (simp add: utf8_decode_def ustr_def)
  from recv_line_at_close [OF n(1), of "[]" MAX_MESSAGE_SIZE] d
  have 1: "fst (recv_line [] [104, 105] MAX_MESSAGE_SIZE) = Inr (Some (ustr ''hi'')) \<and>
   snd (snd (recv_line [] [104, 105] MAX_MESSAGE_SIZE)) = []"
    by simp
  from recv_line_at_close [OF n(2), of "[]" MAX_MESSAGE_SIZE]
  have 2: "fst (recv_line [] [] MAX_MESSAGE_SIZE) = Inr None"
    by simp
  from n d 1 2 show ?thesis by simp
qed

text \<open>
  C8 as stated fails on a remainder that is not valid UTF-8: with the octet
  255 in the buffer, no line is returned and the buffer is not emptied.
\<close>

theorem recv_line_at_close_invalid_utf8:
  "find_newline [255] = None \<and> utf8_decode [255] = None \<and>
   recv_line [] [255] MAX_MESSAGE_SIZE = (Inl (ValueError UnicodeDecodeError), [], [255])"
  by (simp add: recv_line.simps find_newline_def at_close_def utf8_decode_def)

lemma recv_line_accumulate:
  assumes "10 \<notin> set (buffer @ concat pre)" "[] \<notin> set pre"
    and "length (buffer @ concat pre) \<le> max_size"
  shows "recv_line (map Data pre @ conn) buffer max_size =
         recv_line conn (buffer @ concat pre) max_size"
  using assms
proof (induction pre arbitrary: buffer)
  case Nil
  then show ?case by simp
next
  case (Cons c pre)
  have "recv_line (map Data (c # pre) @ conn) buffer max_size =
        recv_line (map Data pre @ conn) (buffer @ c) max_size"
    using Cons.prems recv_line_append [of buffer c max_size "map Data pre @ conn"]
    by (auto simp: find_newline_None)
  also have "\<dots> = recv_line conn ((buffer @ c) @ concat pre) max_size"
    using Cons.prems by (intro Cons.IH) auto
  finally show ?case by simp
qed

subsection \<open>The sequence of lines\<close>

lemma read_lines_cong:
  "recv_line conn buffer max_size = recv_line conn' buffer' max_size \<Longrightarrow>
   read_lines conn buffer max_size = read_lines conn' buffer' max_size"
  by (simp add: read_lines.simps)

lemma find_newline_append:
  "find_newline buffer = Some pos \<Longrightarrow> find_newline (buffer @ ys) = Some pos"
  by (auto simp: find_newline_def split: if_splits)

lemma read_lines_buffered:
  assumes "[] \<notin> set cs" "length (buffer @ concat cs) \<le> max_size"
  shows "read_lines (map Data cs) buffer max_size = read_lines [] (buffer @ concat cs) max_size"
  using assms
proof (induction "length buffer + length (concat cs) + length cs" arbitrary: buffer cs
    rule: less_induct)
  case less
  show ?case
  proof (cases "find_newline buffer")
    case (Some pos)
    then have pos: "pos < length buffer" by (rule find_newline_less)
    have all: "find_newline (buffer @ concat cs) = Some pos"
      using Some by (rule find_newline_append)
    show ?thesis
    proof (cases "utf8_decode (take pos buffer)")
      case None
      then show ?thesis
        using pos by (simp add: read_lines.simps recv_line_newline [OF Some]
            recv_line_newline [OF all])
    next
      case (Some line)
      have "read_lines (map Data cs) (drop (pos + 1) buffer) max_size =
            read_lines [] (drop (pos + 1) buffer @ concat cs) max_size"
        using pos less.prems by (intro less.hyps) auto
      then show ?thesis
        using pos Some
        by (simp add: read_lines.simps [of "map Data cs" buffer]
            read_lines.simps [of "[]" "buffer @ concat cs"]
            recv_line_newline [OF \<open>find_newline buffer = Some pos\<close>]
            recv_line_newline [OF all])
    qed
  next
    case None
    show ?thesis
    proof (cases cs)
      case Nil
      then show ?thesis by simp
    next
      case (Cons c cs')
      with less.prems have c: "c \<noteq> []" "length (buffer @ c) \<le> max_size" by auto
      have "read_lines (map Data cs) buffer max_size =
            read_lines (map Data cs') (buffer @ c) max_size"
        unfolding Cons using recv_line_append [OF None c, of "map Data cs'"]
        by (intro read_lines_cong) simp
      also have "\<dots> = read_lines [] ((buffer @ c) @ concat cs') max_size"
        using less.prems Cons by (intro less.hyps) auto
      finally show ?thesis using Cons by simp
    qed
  qed
qed

text \<open>
  C6, as amended. For every stream of octets whose total length is at most
  \<open>max_size\<close>, any two ways of cutting it into non-empty chunks (feeding it as
  one chunk among them) give the same sequence of decoded lines, in the same
  order, and the same end (end of stream, or the same exception).
\<close>

theorem chunking_invariance_amended:
  assumes "[] \<notin> set cs1" "[] \<notin> set cs2" "concat cs1 = concat cs2"
    and "length (concat cs1) \<le> max_size"
  shows "read_lines (map Data cs1) [] max_size = read_lines (map Data cs2) [] max_size"
proof -
  have "read_lines (map Data cs1) [] max_size = read_lines [] ([] @ concat cs1) max_size"
    using assms by (intro read_lines_buffered) auto
  moreover
  have "read_lines (map Data cs2) [] max_size = read_lines [] ([] @ concat cs2) max_size"
    using assms by (intro read_lines_buffered) auto
  ultimately show ?thesis using assms(3) by simp
qed

lemma utf8_ab: "utf8_decode [97, 98] = Some (ustr ''ab'')" "utf8_decode [99, 100] = Some (ustr ''cd'')"
  by (simp_all add: utf8_decode_def ustr_def)

lemma read_two_chunks:
  "read_lines [Data [97, 98, 10], Data [99, 100, 10]] [] 4 = ([ustr ''ab'', ustr ''cd''], None)"
  by (simp add: read_lines.simps recv_line.simps find_newline_def at_close_def utf8_ab)

lemma read_one_chunk_10:
  "read_lines [Data [97, 98, 10, 99, 100, 10]] [] 10 = ([ustr ''ab'', ustr ''cd''], None)"
  by (simp add: read_lines.simps recv_line.simps find_newline_def at_close_def utf8_ab)

theorem chunking_invariance_amended_witness:
  "[] \<notin> set [[97, 98, 10], [99, 100, 10 :: 8 word]] \<and>
   [] \<notin> set [[97, 98, 10, 99, 100, 10 :: 8 word]] \<and>
   concat [[97, 98, 10], [99, 100, 10]] = concat [[97, 98, 10, 99, 100, 10 :: 8 word]] \<and>
   length (concat [[97, 98, 10], [99, 100, 10 :: 8 word]]) \<le> 10 \<and>
   read_lines (map Data [[97, 98, 10], [99, 100, 10]]) [] 10 =
     read_lines (map Data [[97, 98, 10, 99, 100, 10]]) [] 10 \<and>
   read_lines (map Data [[97, 98, 10, 99, 100, 10]]) [] 10 = ([ustr ''ab'', ustr ''cd''], None)"
  using chunking_invariance_amended
    [of "[[97, 98, 10], [99, 100, 10]]" "[[97, 98, 10, 99, 100, 10]]" 10]
    read_one_chunk_10
  by simp

text \<open>
  C6 as stated fails when the stream is longer than \<open>max_size\<close>, although each
  of its messages is shorter: the size check of \<open>recv_line\<close> is on the whole
  buffer after each \<open>extend\<close>. With \<open>max_size = 4\<close>, the six octets of two lines
  \<open>ab\<close> and \<open>cd\<close> give both lines when received line by line, and the size
  error when received at once.
\<close>

theorem chunking_invariance_counterexample:
  "read_lines [Data [97, 98, 10, 99, 100, 10]] [] 4 =
     ([], Some (ValueError (Message_trop_volumineux 4))) \<and>
   read_lines [Data [97, 98, 10], Data [99, 100, 10]] [] 4 = ([ustr ''ab'', ustr ''cd''], None) \<and>
   concat [[97, 98, 10], [99, 100, 10]] = [97, 98, 10, 99, 100, 10 :: 8 word]"
  by (simp add: read_lines.simps recv_line.simps find_newline_def at_close_def utf8_ab)

section \<open>Properties of the handler\<close>

lemma parse_numeral_fuel:
  "parse_value f (numeral k) s = parse_value f (Suc (pred_numeral k)) s"
  "parse_array f (numeral k) s = parse_array f (Suc (pred_numeral k)) s"
  "parse_object f (numeral k) s = parse_object f (Suc (pred_numeral k)) s"
  by (simp_all only: numeral_eq_Suc)

lemmas json_eval = json_loads_def ustr_def skip_ws_def is_ws_def parse_numeral_fuel
  starts_with_def match_number_def match_integer_def match_frac_def match_exp_def
  is_digit_def int_of_text_def nat_of_digits_def dict_of_pairs_def dict_set_def
  decode_uXXXX_def hex_value_def unescape_def Let_def

subsection \<open>At most one response\<close>

lemma send_message_one: "send_message E conn msg = Inr data \<Longrightarrow> length data = 1"
  by (auto simp: send_message_def split: sum.splits option.splits)

lemma handle_request_one: "handle_request E conn msg rid = Inr data \<Longrightarrow> length data = 1"
  by (auto simp: handle_request_def split: sum.splits dest: send_message_one)

lemma try_block_one: "try_block E conn = Inr data \<Longrightarrow> length data \<le> 1"
  by (auto simp: try_block_def split: sum.splits option.splits if_splits
      dest: send_message_one handle_request_one)

lemma send_parse_error_one: "length (sent (send_parse_error E conn rid e)) \<le> Suc 0"
  by (auto simp: send_parse_error_def split: sum.splits exn.splits dest: send_message_one)

lemma handle_client_at_most_one_response: "length (sent (handle_client E conn)) \<le> 1"
  by (auto simp: handle_client_def on_exception_def send_parse_error_one
      split: sum.splits exn.splits dest: try_block_one)

lemma handle_client_closes: "conn_closed (handle_client E conn)"
  by (auto simp: handle_client_def on_exception_def send_parse_error_def
      split: sum.splits exn.splits)

subsection \<open>Exceptions that leave the handler\<close>

lemma recv_not_an_object:
  "fst (recv_line [Data line_not_an_object] [] MAX_MESSAGE_SIZE) = Inr (Some (ustr ''[]''))"
  by (simp add: line_not_an_object_def recv_line.simps find_newline_def utf8_decode_def
      ustr_def MAX_MESSAGE_SIZE_def)

lemma decode_not_an_object:
  "decode_message (json_loads fparse) (ustr ''[]'') = Inr (PList [])"
  by (simp add: decode_message_def strip_def isspace_def json_eval)

lemma handle_not_an_object:
  "lib_loads E = json_loads fparse \<Longrightarrow>
   handle_client E \<lparr>incoming = [Data line_not_an_object], send_error = se\<rparr> =
     \<lparr>sent = [], conn_closed = True, escaped = Some AttributeError\<rparr>"
  by (simp add: handle_client_def try_block_def recv_not_an_object decode_not_an_object
      on_exception_def)

lemma recv_text_irrigation:
  "fst (recv_line [Data line_text_irrigation] [] MAX_MESSAGE_SIZE) = Inr (Some text_irrigation)"
  by (simp add: line_text_irrigation_def text_irrigation_def recv_line.simps find_newline_def
      utf8_decode_def ustr_def MAX_MESSAGE_SIZE_def)

lemma decode_text_irrigation:
  "decode_message (json_loads fparse) text_irrigation = Inr msg_text_irrigation"
  by (simp add: decode_message_def strip_def isspace_def text_irrigation_def
      msg_text_irrigation_def json_eval)

lemma validate_text_irrigation:
  "validate_readings fromiso
     [\<lparr>sensor_id = PStr [], type = PStr [], val = PNone, unit = PStr [], timestamp = PStr [],
       pump_status = PStr (ustr ''OFF''), irrigation_mm = PStr (ustr ''x'')\<rparr>] = Inl TypeError"
  by (simp add: validate_readings_def validate_single_reading_def check_sensor_id_def
      check_value_def check_pump_def)

lemma handle_text_irrigation:
  "lib_loads E = json_loads fparse \<Longrightarrow>
   handle_client E \<lparr>incoming = [Data line_text_irrigation], send_error = se\<rparr> =
     \<lparr>sent = [], conn_closed = True, escaped = Some TypeError\<rparr>"
  by (simp add: handle_client_def try_block_def recv_text_irrigation decode_text_irrigation
      msg_text_irrigation_def dict_get_def handle_request_def IngestRequest_from_dict_def
      ingest_response_def validate_text_irrigation [unfolded ustr_def, simplified]
      on_exception_def ustr_def)

text \<open>
  C2. The claim has two parts. The handler sends at most one response and
  always closes the socket (\<open>handle_client_at_most_one_response\<close>,
  \<open>handle_client_closes\<close>). But a failure can leave the handler: its \<open>except\<close>
  clauses catch \<open>socket.timeout\<close>, \<open>ValueError\<close>, \<open>KeyError\<close> and \<open>OSError\<close>
  only. The line \<open>[]\<close> is JSON that is not an object, so \<open>msg.get\<close> raises
  \<open>AttributeError\<close>; a reading with \<open>pump_status\<close> OFF and the text \<open>x\<close> as
  \<open>irrigation_mm\<close> makes \<open>irrigation_mm > 0\<close> raise \<open>TypeError\<close>. Neither is
  caught, by the handler or by the accept loop: the server ends and the next
  client is never served.
\<close>

theorem handler_exception_stops_server:
  "handle_client (E\<lparr>lib_loads := json_loads fparse\<rparr>)
     \<lparr>incoming = [Data line_not_an_object], send_error = None\<rparr> =
     \<lparr>sent = [], conn_closed = True, escaped = Some AttributeError\<rparr> \<and>
   handle_client (E\<lparr>lib_loads := json_loads fparse\<rparr>)
     \<lparr>incoming = [Data line_text_irrigation], send_error = None\<rparr> =
     \<lparr>sent = [], conn_closed = True, escaped = Some TypeError\<rparr> \<and>
   run_server
     [Client (E\<lparr>lib_loads := json_loads fparse\<rparr>)
        \<lparr>incoming = [Data line_not_an_object], send_error = None\<rparr>,
      Client E' conn'] =
     ([\<lparr>sent = [], conn_closed = True, escaped = Some AttributeError\<rparr>],
      Crashed AttributeError)"
  by (simp add: handle_not_an_object [where fparse = fparse]
      handle_text_irrigation [where fparse = fparse])

subsection \<open>The size limit\<close>

lemma recv_line_too_large_after:
  assumes "10 \<notin> set (buffer @ concat pre)" "[] \<notin> set pre" "chunk \<noteq> []"
    and "length (buffer @ concat pre) \<le> max_size"
    and "length (buffer @ concat pre @ chunk) > max_size"
  shows "recv_line (map Data pre @ Data chunk # rest) buffer max_size =
         (Inl (ValueError (Message_trop_volumineux max_size)), rest,
          buffer @ concat pre @ chunk)"
proof -
  have "recv_line (map Data pre @ Data chunk # rest) buffer max_size =
        recv_line (Data chunk # rest) (buffer @ concat pre) max_size"
    using assms by (intro recv_line_accumulate) auto
  also have "\<dots> = (Inl (ValueError (Message_trop_volumineux max_size)), rest,
          (buffer @ concat pre) @ chunk)"
    using assms by (intro recv_line_too_large) (auto simp: find_newline_None)
  finally show ?thesis by simp
qed

lemma send_parse_error_loads:
  "send_parse_error (E\<lparr>lib_loads := loads\<rparr>) conn rid e = send_parse_error E conn rid e"
  by (cases e) (simp_all add: send_parse_error_def send_message_def exc_str_def
      split: value_error.splits)

text \<open>
  C7. When the buffer, without a newline so far, exceeds \<open>max_size\<close> after a
  chunk is appended, \<open>recv_line\<close> raises the size error (whatever the chunk
  holds). In \<open>handle_client\<close>, which reads with the default limit of 1048576
  octets, the outcome is then the one of the \<open>except\<close> clause for \<open>ValueError\<close>
  alone: \<open>decode_message\<close> is not reached, and the outcome is the same
  whatever \<open>json.loads\<close> would do.
\<close>

theorem message_too_large_before_parsing:
  assumes "10 \<notin> set (buffer @ concat pre)" "[] \<notin> set pre" "chunk \<noteq> []"
    and "length (buffer @ concat pre) \<le> max_size"
    and "length (buffer @ concat pre @ chunk) > max_size"
  shows "recv_line (map Data pre @ Data chunk # rest) buffer max_size =
           (Inl (ValueError (Message_trop_volumineux max_size)), rest,
            buffer @ concat pre @ chunk) \<and>
         (buffer = [] \<and> max_size = MAX_MESSAGE_SIZE \<longrightarrow>
            handle_client E \<lparr>incoming = map Data pre @ Data chunk # rest, send_error = se\<rparr> =
              send_parse_error E
                \<lparr>incoming = map Data pre @ Data chunk # rest, send_error = se\<rparr>
                (PStr (ustr ''unknown''))
                (ValueError (Message_trop_volumineux MAX_MESSAGE_SIZE)) \<and>
            handle_client (E\<lparr>lib_loads := loads\<rparr>)
                \<lparr>incoming = map Data pre @ Data chunk # rest, send_error = se\<rparr> =
              handle_client E \<lparr>incoming = map Data pre @ Data chunk # rest, send_error = se\<rparr>)"
proof -
  note r = recv_line_too_large_after [OF assms, of rest]
  have h: "handle_client E' \<lparr>incoming = map Data pre @ Data chunk # rest, send_error = se\<rparr> =
        send_parse_error E'
          \<lparr>incoming = map Data pre @ Data chunk # rest, send_error = se\<rparr>
          (PStr (ustr ''unknown'')) (ValueError (Message_trop_volumineux MAX_MESSAGE_SIZE))"
    if "buffer = []" "max_size = MAX_MESSAGE_SIZE" for E'
    using r that by (simp add: handle_client_def try_block_def on_exception_def)
  show ?thesis
    using r h [of E] h [of "E\<lparr>lib_loads := loads\<rparr>"] by (simp add: send_parse_error_loads)
qed

theorem message_too_large_before_parsing_witness:
  "10 \<notin> set ([] @ concat (replicate 256 (replicate 4096 (97 :: 8 word)))) \<and>
   [] \<notin> set (replicate 256 (replicate 4096 (97 :: 8 word))) \<and>
   [97 :: 8 word] \<noteq> [] \<and>
   length ([] @ concat (replicate 256 (replicate 4096 (97 :: 8 word)))) \<le> MAX_MESSAGE_SIZE \<and>
   length ([] @ concat (replicate 256 (replicate 4096 (97 :: 8 word))) @ [97]) > MAX_MESSAGE_SIZE \<and>
   fst (recv_line (map Data (replicate 256 (replicate 4096 97)) @ [Data [97]]) [] MAX_MESSAGE_SIZE) =
     Inl (ValueError (Message_trop_volumineux MAX_MESSAGE_SIZE)) \<and>
   handle_client example_env
     \<lparr>incoming = map Data (replicate 256 (replicate 4096 97)) @ [Data [97]], send_error = None\<rparr> =
     send_parse_error example_env
       \<lparr>incoming = map Data (replicate 256 (replicate 4096 97)) @ [Data [97]], send_error = None\<rparr>
       (PStr (ustr ''unknown'')) (ValueError (Message_trop_volumineux MAX_MESSAGE_SIZE))"
proof -
  have a: "10 \<notin> set ([] @ concat (replicate 256 (replicate 4096 (97 :: 8 word))))"
    "[] \<notin> set (replicate 256 (replicate 4096 (97 :: 8 word)))"
    "[97 :: 8 word] \<noteq> []"
    "length ([] @ concat (replicate 256 (replicate 4096 (97 :: 8 word)))) \<le> MAX_MESSAGE_SIZE"
    "length ([] @ concat (replicate 256 (replicate 4096 (97 :: 8 word))) @ [97]) > MAX_MESSAGE_SIZE"
    by (simp_all add: MAX_MESSAGE_SIZE_def length_concat sum_list_replicate)
  from message_too_large_before_parsing [OF a, of "[]" example_env None]
  show ?thesis using a by simp
qed

section \<open>Properties of the json module\<close>

subsection \<open>Strings\<close>

lemma hex_value_hexdigit: "d < 16 \<Longrightarrow> hex_value (hexdigit d) = Some d"
  by (auto simp: hex_value_def hexdigit_def)

lemma decode_hex4: "c < 32 \<Longrightarrow> decode_uXXXX (hex4 c @ r) = Some c"
proof -
  assume c: "c < 32"
  then have d: "c div 4096 mod 16 = 0" "c div 256 mod 16 = 0" "c div 16 mod 16 = c div 16"
    "c div 16 < 16" "c mod 16 < 16"
    by auto
  show ?thesis
    using d by (simp add: decode_uXXXX_def hex4_def hex_value_hexdigit)
qed

lemma scanstring_escape_char:
  "scanstring (escape_char c @ r) = map_option (\<lambda>(x, rest). (c # x, rest)) (scanstring r)"
proof -
  consider "c = 34" | "c = 92" | "c = 10" | "c = 13" | "c = 9" | "c = 8" | "c = 12"
    | "c < 32" "c \<notin> {10, 13, 9, 8, 12}" | "c \<ge> 32" "c \<noteq> 34" "c \<noteq> 92"
    by fastforce
  then show ?thesis
  proof cases
    case 8
    then have e: "escape_char c = [92, 117] @ hex4 c"
      by (auto simp: escape_char_def)
    have h: "length (hex4 c) = 4"
      by (simp add: hex4_def)
    show ?thesis
      using 8 by (simp add: e decode_hex4 h)
  qed (simp_all add: escape_char_def unescape_def)
qed

lemma scanstring_encoded:
  "scanstring (concat (map escape_char s) @ 34 # rest) = Some (s, rest)"
  by (induction s) (simp_all add: scanstring_escape_char)

lemma parse_value_string:
  "parse_value fparse (Suc n) (encode_basestring s @ rest) = Some (PStr s, rest)"
  by (simp add: encode_basestring_def scanstring_encoded)

subsection \<open>Integers\<close>

lemma digits_of_digits: "c \<in> set (digits_of n) \<Longrightarrow> is_digit c"
proof (induction n rule: digits_of.induct)
  case (1 n)
  then show ?case
    by (subst (asm) digits_of.simps) (auto simp: is_digit_def split: if_splits)
qed

lemma digits_of_nonempty: "digits_of n \<noteq> []"
  by (subst digits_of.simps) simp

lemma digits_of_leading: "hd (digits_of n) = 48 \<Longrightarrow> digits_of n = [48]"
proof (induction n rule: digits_of.induct)
  case (1 n)
  show ?case
  proof (cases "n < 10")
    case True
    with 1 show ?thesis by (simp add: digits_of.simps)
  next
    case False
    then have e: "digits_of n = digits_of (n div 10) @ [48 + n mod 10]"
      by (subst digits_of.simps) simp
    with 1 False have "hd (digits_of (n div 10)) = 48"
      by (simp add: digits_of_nonempty)
    with 1 False have "digits_of (n div 10) = [48]" by simp
    moreover have "digits_of (n div 10) \<noteq> [48]"
      using False by (subst digits_of.simps) (auto simp: digits_of_nonempty)
    ultimately show ?thesis by simp
  qed
qed

lemma nat_of_digits_snoc: "nat_of_digits (ds @ [d]) = 10 * nat_of_digits ds + (d - 48)"
  by (simp add: nat_of_digits_def)

lemma nat_of_digits_of: "nat_of_digits (digits_of n) = n"
proof (induction n rule: digits_of.induct)
  case (1 n)
  show ?case
  proof (cases "n < 10")
    case True
    then show ?thesis by (simp add: digits_of.simps nat_of_digits_def)
  next
    case False
    then have e: "digits_of n = digits_of (n div 10) @ [48 + n mod 10]"
      by (subst digits_of.simps) simp
    show ?thesis
      using 1 False by (simp add: e nat_of_digits_snoc)
  qed
qed


subsection \<open>Numbers\<close>

lemma delim_cases: "delim rest \<Longrightarrow> rest = [] \<or> (\<exists>c r. rest = c # r \<and> (c = 44 \<or> c = 93 \<or> c = 125))"
  by (cases rest) (auto simp: delim_def)

lemma takeWhile_digit_delim: "delim rest \<Longrightarrow> takeWhile is_digit (r @ rest) = takeWhile is_digit r"
  by (induction r) (auto simp: is_digit_def dest!: delim_cases)

lemma dropWhile_digit_delim:
  "delim rest \<Longrightarrow> dropWhile is_digit (r @ rest) = dropWhile is_digit r @ rest"
  by (induction r) (auto simp: is_digit_def dest!: delim_cases)

lemma match_frac_delim:
  "delim rest \<Longrightarrow> match_frac (s @ rest) = (fst (match_frac s), snd (match_frac s) @ rest)"
  by (cases s)
    (auto simp: match_frac_def takeWhile_digit_delim dropWhile_digit_delim
      dest!: delim_cases)

lemma match_exp_delim:
  "delim rest \<Longrightarrow> match_exp (s @ rest) = (fst (match_exp s), snd (match_exp s) @ rest)"
proof (cases s)
  case Nil
  assume "delim rest"
  with Nil show ?thesis
    by (auto simp: match_exp_def dest!: delim_cases)
next
  case (Cons c r)
  assume d: "delim rest"
  show ?thesis
  proof (cases r)
    case Nil
    with Cons d show ?thesis
      by (auto simp: match_exp_def Let_def is_digit_def dest!: delim_cases)
  next
    case (Cons g r')
    with \<open>s = c # r\<close> d show ?thesis
      by (auto simp: match_exp_def Let_def takeWhile_digit_delim dropWhile_digit_delim)
  qed
qed

lemma match_integer_delim:
  "delim rest \<Longrightarrow>
   match_integer (s @ rest) = map_option (\<lambda>(i, r). (i, r @ rest)) (match_integer s)"
proof (cases s)
  case Nil
  assume "delim rest"
  with Nil show ?thesis
    by (auto simp: match_integer_def Let_def is_digit_def dest!: delim_cases)
next
  case (Cons c r)
  assume d: "delim rest"
  show ?thesis
  proof (cases "c = 45")
    case True
    show ?thesis
    proof (cases r)
      case Nil
      with Cons True d show ?thesis
        by (auto simp: match_integer_def Let_def is_digit_def dest!: delim_cases)
    next
      case (Cons d' r')
      with \<open>s = c # r\<close> True d show ?thesis
        by (auto simp: match_integer_def Let_def takeWhile_digit_delim dropWhile_digit_delim)
    qed
  next
    case False
    with Cons d show ?thesis
      by (auto simp: match_integer_def Let_def takeWhile_digit_delim dropWhile_digit_delim)
  qed
qed

lemma match_number_delim:
  "delim rest \<Longrightarrow>
   match_number (s @ rest) =
     map_option (\<lambda>(i, f, e, r). (i, f, e, r @ rest)) (match_number s)"
  by (cases "match_integer s")
    (auto simp: match_number_def match_integer_delim match_frac_delim match_exp_delim
      split: prod.splits)


lemma takeWhile_all: "(\<And>c. c \<in> set ds \<Longrightarrow> P c) \<Longrightarrow> takeWhile P ds = ds"
  by (induction ds) auto

lemma dropWhile_all: "(\<And>c. c \<in> set ds \<Longrightarrow> P c) \<Longrightarrow> dropWhile P ds = []"
  by (induction ds) auto

lemma match_integer_digits:
  "match_integer (digits_of n) = Some (digits_of n, [])"
proof -
  obtain d r where dr: "digits_of n = d # r"
    using digits_of_nonempty [of n] by (cases "digits_of n") auto
  have dig: "\<And>c. c \<in> set (d # r) \<Longrightarrow> is_digit c"
    using digits_of_digits [of _ n] dr by simp
  have "is_digit d" using dig [of d] by simp
  then have d: "is_digit d" "d \<noteq> 45" by (auto simp: is_digit_def)
  show ?thesis
  proof (cases "d = 48")
    case True
    then have "r = []" using digits_of_leading [of n] dr by simp
    with True d dr show ?thesis by (simp add: match_integer_def)
  next
    case False
    with d dr dig show ?thesis
      by (simp add: match_integer_def takeWhile_all dropWhile_all)
  qed
qed

lemma match_integer_minus_digits:
  "match_integer (45 # digits_of n) = Some (45 # digits_of n, [])"
proof -
  obtain d r where dr: "digits_of n = d # r"
    using digits_of_nonempty [of n] by (cases "digits_of n") auto
  have dig: "\<And>c. c \<in> set (d # r) \<Longrightarrow> is_digit c"
    using digits_of_digits [of _ n] dr by simp
  then have d: "is_digit d" by auto
  show ?thesis
  proof (cases "d = 48")
    case True
    then have "r = []" using digits_of_leading [of n] dr by simp
    with True d dr show ?thesis by (simp add: match_integer_def)
  next
    case False
    with d dr dig show ?thesis
      by (simp add: match_integer_def takeWhile_all dropWhile_all)
  qed
qed

lemma match_number_int_repr: "match_number (int_repr i) = Some (int_repr i, [], [], [])"
  by (simp add: match_number_def int_repr_def match_integer_digits match_integer_minus_digits
      match_frac_def match_exp_def)

lemma int_of_text_repr: "int_of_text (int_repr i) = i"
proof (cases "i < 0")
  case True
  then show ?thesis
    by (simp add: int_of_text_def int_repr_def nat_of_digits_of)
next
  case False
  obtain d r where dr: "digits_of (nat i) = d # r"
    using digits_of_nonempty [of "nat i"] by (cases "digits_of (nat i)") auto
  then have "is_digit d" using digits_of_digits [of d "nat i"] by simp
  then have "d \<noteq> 45" by (auto simp: is_digit_def)
  with False dr nat_of_digits_of [of "nat i"] show ?thesis
    by (simp add: int_of_text_def int_repr_def)
qed

lemma match_integer_first:
  "match_integer s = Some (i, r) \<Longrightarrow> \<exists>c t. s = c # t \<and> (c = 45 \<or> is_digit c)"
  by (cases s) (auto simp: match_integer_def Let_def is_digit_def split: if_splits list.splits)

lemma match_number_first:
  "match_number s = Some (i, f, e, r) \<Longrightarrow> \<exists>c t. s = c # t \<and> (c = 45 \<or> is_digit c)"
  by (auto simp: match_number_def split: option.splits prod.splits dest: match_integer_first)

lemma parse_value_number:
  assumes "match_number s = Some (i, f, e, r)"
  shows "parse_value fparse (Suc n) s =
           (if f = [] \<and> e = [] then Some (PInt (int_of_text i), r)
            else Some (PFloat (fparse (i @ f @ e)), r))"
proof -
  obtain c t where s: "s = c # t" and c: "c = 45 \<or> is_digit c"
    using match_number_first [OF assms] by blast
  from c have "c \<noteq> 34" "c \<noteq> 123" "c \<noteq> 91" "c \<noteq> 110" "c \<noteq> 116" "c \<noteq> 102"
    by (auto simp: is_digit_def)
  then show ?thesis
    using assms unfolding s by (simp add: starts_with_def ustr_def)
qed

lemma parse_value_int:
  assumes "delim rest"
  shows "parse_value fparse (Suc n) (int_repr i @ rest) = Some (PInt i, rest)"
proof -
  have m: "match_number (int_repr i @ rest) = Some (int_repr i, [], [], rest)"
    using assms by (simp add: match_number_delim match_number_int_repr)
  show ?thesis
    using parse_value_number [OF m, of fparse n] by (simp add: int_of_text_repr)
qed

lemma match_integer_parts: "match_integer s = Some (i, r) \<Longrightarrow> s = i @ r"
  by (cases s) (auto simp: match_integer_def Let_def split: if_splits list.splits)

lemma match_frac_parts: "match_frac s = (f, r) \<Longrightarrow> s = f @ r"
  by (cases s) (auto simp: match_frac_def split: if_splits)

lemma match_exp_parts: "match_exp s = (e, r) \<Longrightarrow> s = e @ r"
proof (cases s)
  case Nil
  assume "match_exp s = (e, r)"
  with Nil show ?thesis by (simp add: match_exp_def)
next
  case (Cons c t)
  assume m: "match_exp s = (e, r)"
  show ?thesis
  proof (cases t)
    case Nil
    with Cons m show ?thesis by (auto simp: match_exp_def Let_def split: if_splits)
  next
    case (Cons g t')
    with \<open>s = c # t\<close> m show ?thesis
      by (auto simp: match_exp_def Let_def split: if_splits)
  qed
qed

lemma match_number_parts: "match_number s = Some (i, f, e, r) \<Longrightarrow> s = i @ f @ e @ r"
  by (auto simp: match_number_def split: option.splits prod.splits
      dest!: match_integer_parts match_frac_parts match_exp_parts)

lemma value_start_not_ws: "value_start c \<Longrightarrow> skip_ws (c # t) = c # t"
  by (auto simp: value_start_def skip_ws_def is_ws_def is_digit_def)

lemma value_start_not_close: "value_start c \<Longrightarrow> c \<noteq> 93"
  by (auto simp: value_start_def is_digit_def)

lemma int_repr_first: "\<exists>c t. int_repr i = c # t \<and> value_start c"
proof -
  obtain d r where dr: "digits_of (nat i) = d # r"
    using digits_of_nonempty [of "nat i"] by (cases "digits_of (nat i)") auto
  then have "is_digit d" using digits_of_digits [of d "nat i"] by simp
  with dr show ?thesis by (auto simp: int_repr_def value_start_def)
qed

lemma dumps_first:
  "json_value frepr fparse v \<Longrightarrow> \<exists>c t. json_dumps frepr v = c # t \<and> value_start c"
proof (cases v)
  case (PInt i)
  then show ?thesis using int_repr_first [of i] by simp
next
  case (PFloat f)
  assume "json_value frepr fparse v"
  with PFloat obtain q where q: "f = Finite q" "float_text_ok frepr fparse q"
    by (cases f) auto
  then obtain i fr e r where "match_number (frepr q) = Some (i, fr, e, r)"
    by (auto simp: float_text_ok_def split: option.splits)
  from match_number_first [OF this] PFloat q show ?thesis
    by (auto simp: float_repr_def value_start_def)
qed (auto simp: value_start_def ustr_def encode_basestring_def)

lemma skip_ws_close [simp]: "skip_ws (93 # t) = 93 # t" "skip_ws (125 # t) = 125 # t"
  "skip_ws (44 # t) = 44 # t" "skip_ws (58 # t) = 58 # t" "skip_ws (34 # t) = 34 # t"
  by (simp_all add: skip_ws_def is_ws_def)

lemma delim_simps [simp]: "delim []" "delim (93 # t)" "delim (125 # t)" "delim (44 # t)"
  by (simp_all add: delim_def)

lemma parse_array_join:
  assumes "\<And>x n rest. x \<in> set xs \<Longrightarrow> delim rest \<Longrightarrow> length (json_dumps frepr x) \<le> n \<Longrightarrow>
             parse_value fparse n (json_dumps frepr x @ rest) = Some (x, rest)"
    and "\<And>x. x \<in> set xs \<Longrightarrow> \<exists>c t. json_dumps frepr x = c # t \<and> value_start c"
    and "xs \<noteq> []" and "length (join [44] (map (json_dumps frepr) xs)) < n"
  shows "parse_array fparse n (join [44] (map (json_dumps frepr) xs) @ 93 # rest) = Some (xs, rest)"
  using assms
proof (induction xs arbitrary: n)
  case Nil
  then show ?case by simp
next
  case (Cons x xs)
  from Cons.prems(4) obtain m where n: "n = Suc m" by (cases n) auto
  show ?case
  proof (cases xs)
    case Nil
    have "parse_value fparse m (json_dumps frepr x @ 93 # rest) = Some (x, 93 # rest)"
      using Cons.prems(4) Nil n by (intro Cons.prems(1)) auto
    then show ?thesis using Nil n by simp
  next
    case (Cons y ys)
    let ?J = "join [44] (map (json_dumps frepr) xs)"
    have j: "join [44] (map (json_dumps frepr) (x # xs)) = json_dumps frepr x @ 44 # ?J"
      using Cons by simp
    have v: "parse_value fparse m (json_dumps frepr x @ 44 # ?J @ 93 # rest) =
             Some (x, 44 # ?J @ 93 # rest)"
      using Cons.prems(4) n unfolding j by (intro Cons.prems(1)) auto
    obtain c t where ct: "json_dumps frepr y = c # t" "value_start c"
      using Cons.prems(2) [of y] Cons by auto
    have s: "skip_ws (?J @ 93 # rest) = ?J @ 93 # rest"
    proof (cases ys)
      case Nil
      with Cons ct show ?thesis by (simp add: value_start_not_ws)
    next
      case (Cons z zs)
      with \<open>xs = y # ys\<close> ct show ?thesis by (simp add: value_start_not_ws)
    qed
    have r: "parse_array fparse m (?J @ 93 # rest) = Some (xs, rest)"
      using Cons.prems n Cons unfolding j by (intro Cons.IH) auto
    show ?thesis
      unfolding j n using v s r by simp
  qed
qed


lemma foldl_dict_set_distinct:
  "distinct (map fst (d @ kvs)) \<Longrightarrow> foldl dict_set d kvs = d @ kvs"
proof (induction kvs arbitrary: d)
  case Nil
  then show ?case by simp
next
  case (Cons kv kvs)
  then have "fst kv \<notin> fst ` set d" by auto
  then have "dict_set d kv = d @ [kv]" by (simp add: dict_set_def)
  moreover have "foldl dict_set (d @ [kv]) kvs = (d @ [kv]) @ kvs"
    using Cons.prems by (intro Cons.IH) simp
  ultimately show ?case by simp
qed

lemma dict_of_pairs_distinct: "distinct (map fst kvs) \<Longrightarrow> dict_of_pairs kvs = kvs"
  using foldl_dict_set_distinct [of "[]" kvs] by (simp add: dict_of_pairs_def)

lemma entry_text:
  "encode_basestring (fst kv) @ [58] @ json_dumps frepr (snd kv) = 34 # entry_tail frepr kv"
  by (simp add: entry_tail_def encode_basestring_def)

lemma parse_object_join:
  assumes "\<And>kv n rest. kv \<in> set kvs \<Longrightarrow> delim rest \<Longrightarrow> length (json_dumps frepr (snd kv)) \<le> n \<Longrightarrow>
             parse_value fparse n (json_dumps frepr (snd kv) @ rest) = Some (snd kv, rest)"
    and "\<And>kv. kv \<in> set kvs \<Longrightarrow> \<exists>c t. json_dumps frepr (snd kv) = c # t \<and> value_start c"
    and "kvs \<noteq> []"
    and "length (join [44] (map (\<lambda>kv. 34 # entry_tail frepr kv) kvs)) \<le> n"
  shows "parse_object fparse n (tl (join [44] (map (\<lambda>kv. 34 # entry_tail frepr kv) kvs)) @ 125 # rest)
         = Some (kvs, rest)"
  using assms
proof (induction kvs arbitrary: n)
  case Nil
  then show ?case by simp
next
  case (Cons kv kvs)
  obtain c t where ct: "json_dumps frepr (snd kv) = c # t" "value_start c"
    using Cons.prems(2) [of kv] by auto
  show ?case
  proof (cases kvs)
    case Nil
    from Cons.prems(4) Nil obtain m where n: "n = Suc m"
      by (cases n) auto
    have k: "scanstring (entry_tail frepr kv @ 125 # rest) =
             Some (fst kv, 58 # json_dumps frepr (snd kv) @ 125 # rest)"
      using scanstring_encoded [of "fst kv" "58 # json_dumps frepr (snd kv) @ 125 # rest"]
      by (simp add: entry_tail_def)
    have s: "skip_ws (json_dumps frepr (snd kv) @ 125 # rest) =
             json_dumps frepr (snd kv) @ 125 # rest"
      using ct by (simp add: value_start_not_ws)
    have v: "parse_value fparse m (json_dumps frepr (snd kv) @ 125 # rest) =
             Some (snd kv, 125 # rest)"
      using Cons.prems(4) Nil n by (intro Cons.prems(1)) (auto simp: entry_tail_def)
    show ?thesis
      using Nil n k s v by simp
  next
    case (Cons kv2 more)
    let ?J = "join [44] (map (\<lambda>kv. 34 # entry_tail frepr kv) kvs)"
    have j: "join [44] (map (\<lambda>kv. 34 # entry_tail frepr kv) (kv # kvs)) =
             34 # entry_tail frepr kv @ 44 # ?J"
      using Cons by simp
    have J: "?J = 34 # tl ?J"
      using Cons by (cases more) simp_all
    from Cons.prems(4) obtain m where n: "n = Suc m"
      unfolding j by (cases n) auto
    have k: "scanstring (entry_tail frepr kv @ 44 # ?J @ 125 # rest) =
             Some (fst kv, 58 # json_dumps frepr (snd kv) @ 44 # ?J @ 125 # rest)"
      using scanstring_encoded [of "fst kv" "58 # json_dumps frepr (snd kv) @ 44 # ?J @ 125 # rest"]
      by (simp add: entry_tail_def)
    have s: "skip_ws (json_dumps frepr (snd kv) @ 44 # ?J @ 125 # rest) =
             json_dumps frepr (snd kv) @ 44 # ?J @ 125 # rest"
      using ct by (simp add: value_start_not_ws)
    have v: "parse_value fparse m (json_dumps frepr (snd kv) @ 44 # ?J @ 125 # rest) =
             Some (snd kv, 44 # ?J @ 125 # rest)"
      using Cons.prems(4) n unfolding j by (intro Cons.prems(1)) (auto simp: entry_tail_def)
    have r: "parse_object fparse m (tl ?J @ 125 # rest) = Some (kvs, rest)"
      using Cons.prems n Cons unfolding j by (intro Cons.IH) auto
    have s2: "skip_ws (?J @ 125 # rest) = 34 # tl ?J @ 125 # rest"
      by (subst J) simp
    show ?thesis
      unfolding j n using k s v r s2 by simp
  qed
qed


lemma parse_dumps:
  "json_value frepr fparse v \<Longrightarrow> delim rest \<Longrightarrow> length (json_dumps frepr v) \<le> n \<Longrightarrow>
   parse_value fparse n (json_dumps frepr v @ rest) = Some (v, rest)"
proof (induction frepr v arbitrary: n rest rule: json_dumps.induct)
  case (1 frepr)
  then obtain m where "n = Suc m" by (cases n) (auto simp: ustr_def)
  then show ?case by (simp add: ustr_def starts_with_def)
next
  case (2 frepr b)
  then obtain m where "n = Suc m" by (cases n) (auto simp: ustr_def split: if_splits)
  then show ?case by (simp add: ustr_def starts_with_def)
next
  case (3 frepr i)
  obtain c t where "int_repr i = c # t" using int_repr_first by blast
  with 3 obtain m where "n = Suc m" by (cases n) auto
  with 3 show ?case by (simp add: parse_value_int del: parse_value.simps)
next
  case (4 frepr f)
  then obtain q where q: "f = Finite q" "float_text_ok frepr fparse q"
    by (cases f) auto
  then obtain i fr e where m: "match_number (frepr q) = Some (i, fr, e, [])"
    and fe: "fr \<noteq> [] \<or> e \<noteq> []" and again: "fparse (frepr q) = Finite q"
    by (auto simp: float_text_ok_def split: option.splits)
  have parts: "frepr q = i @ fr @ e"
    using match_number_parts [OF m] by simp
  have m': "match_number (frepr q @ rest) = Some (i, fr, e, rest)"
    using 4(2) m by (simp add: match_number_delim)
  from fe parts 4(3) q obtain k where "n = Suc k"
    by (cases n) (auto simp: float_repr_def)
  then show ?case
    using parse_value_number [OF m', of fparse k] fe again parts q
    by (auto simp: float_repr_def simp del: parse_value.simps)
next
  case (5 frepr s)
  then obtain m where "n = Suc m" by (cases n) (auto simp: encode_basestring_def)
  then show ?case by (simp add: parse_value_string del: parse_value.simps)
next
  case (6 frepr xs)
  let ?J = "join [44] (map (json_dumps frepr) xs)"
  from 6(4) obtain m where n: "n = Suc m" by (cases n) auto
  show ?case
  proof (cases xs)
    case Nil
    with n show ?thesis by simp
  next
    case (Cons x ys)
    have first: "\<exists>c t. json_dumps frepr x = c # t \<and> value_start c" if "x \<in> set xs" for x
    proof -
      from that 6(2) have "json_value frepr fparse x" by (simp add: list_all_iff)
      then show ?thesis by (rule dumps_first)
    qed
    have elems: "\<And>x n rest. x \<in> set xs \<Longrightarrow> delim rest \<Longrightarrow> length (json_dumps frepr x) \<le> n \<Longrightarrow>
             parse_value fparse n (json_dumps frepr x @ rest) = Some (x, rest)"
      using 6(1) 6(2) by (auto simp: list_all_iff)
    have a: "parse_array fparse m (?J @ 93 # rest) = Some (xs, rest)"
      using 6(4) n Cons by (intro parse_array_join elems first) auto
    obtain c t where ct: "json_dumps frepr x = c # t" "value_start c"
      using first [of x] Cons by auto
    have J: "\<exists>t'. ?J = c # t'"
      using Cons ct by (cases ys) auto
    then obtain t' where t': "?J = c # t'" by blast
    have "skip_ws (?J @ 93 # rest) = c # t' @ 93 # rest"
      using ct(2) by (simp add: t' value_start_not_ws)
    with a show ?thesis
      using n ct(2) by (simp add: t' value_start_not_close)
  qed
next
  case (7 frepr kvs)
  let ?J = "join [44] (map (\<lambda>kv. 34 # entry_tail frepr kv) kvs)"
  have d: "json_dumps frepr (PDict kvs) = 123 # ?J @ [125]"
    by (simp add: entry_tail_def encode_basestring_def)
  from 7(4) obtain m where n: "n = Suc m" by (cases n) auto
  have dist: "dict_of_pairs kvs = kvs"
    using 7(2) by (simp add: dict_of_pairs_distinct)
  show ?case
  proof (cases kvs)
    case Nil
    with n show ?thesis by simp
  next
    case (Cons kv more)
    have first: "\<exists>c t. json_dumps frepr (snd kv) = c # t \<and> value_start c"
      if "kv \<in> set kvs" for kv
    proof -
      from that 7(2) have "json_value frepr fparse (snd kv)" by (simp add: list_all_iff)
      then show ?thesis by (rule dumps_first)
    qed
    have vals: "\<And>kv n rest. kv \<in> set kvs \<Longrightarrow> delim rest \<Longrightarrow>
             length (json_dumps frepr (snd kv)) \<le> n \<Longrightarrow>
             parse_value fparse n (json_dumps frepr (snd kv) @ rest) = Some (snd kv, rest)"
      using 7(1) 7(2) by (auto simp: list_all_iff)
    have o: "parse_object fparse m (tl ?J @ 125 # rest) = Some (kvs, rest)"
      using 7(4) n Cons unfolding d by (intro parse_object_join vals first) auto
    have J: "?J = 34 # tl ?J"
      using Cons by (cases more) simp_all
    have "skip_ws (?J @ 125 # rest) = 34 # tl ?J @ 125 # rest"
      by (subst J) simp
    with o show ?thesis
      unfolding d n by (simp add: dist)
  qed
qed

lemma skip_ws_Nil [simp]: "skip_ws [] = []"
  by (simp add: skip_ws_def)

theorem json_loads_dumps:
  assumes "json_value frepr fparse v"
  shows "json_loads fparse (json_dumps frepr v) = Some v"
proof -
  obtain c t where ct: "json_dumps frepr v = c # t" "value_start c"
    using dumps_first [OF assms] by blast
  then have s: "skip_ws (json_dumps frepr v) = json_dumps frepr v"
    by (simp add: value_start_not_ws)
  have "parse_value fparse (Suc (length (json_dumps frepr v))) (json_dumps frepr v @ []) = Some (v, [])"
    using assms by (intro parse_dumps) auto
  then show ?thesis
    by (simp add: json_loads_def s del: parse_value.simps)
qed

subsection \<open>The bound on nested calls is never reached\<close>

lemma skip_ws_length: "length (skip_ws s) \<le> length s"
  by (simp add: skip_ws_def length_dropWhile_le)

lemma scanstring_shorter: "scanstring s = Some (x, r) \<Longrightarrow> length r < length s"
proof (induction s arbitrary: x r rule: scanstring.induct)
  case 1
  then show ?case by simp
next
  case (2 c t)
  show ?case
  proof (cases "c = 34")
    case True
    with 2 show ?thesis by auto
  next
    case False
    note c34 = this
    show ?thesis
    proof (cases "c = 92")
      case False
      with c34 2(6) obtain x' where "scanstring t = Some (x', r)"
        by (auto split: if_splits)
      from 2(5) [OF c34 False _ this] 2(6) c34 False show ?thesis
        by (auto split: if_splits)
    next
      case True
      with 2(6) obtain e t' where t: "t = e # t'"
        by (cases t) auto
      show ?thesis
      proof (cases "e = 117")
        case False
        with True t 2(6) obtain ch x' where ch: "unescape e = Some ch" "scanstring t' = Some (x', r)"
          by (auto split: option.splits)
        from 2(4) [OF c34 True t False ch(1) ch(2)] t show ?thesis by simp
      next
        case True
        with \<open>c = 92\<close> t 2(6) obtain u where u: "decode_uXXXX t' = Some u"
          by (auto split: option.splits)
        show ?thesis
        proof (cases "55296 \<le> u \<and> u \<le> 56319 \<and> starts_with [92, 117] (drop 4 t')")
          case False
          with \<open>c = 92\<close> True t u 2(6) obtain x' where s: "scanstring (drop 4 t') = Some (x', r)"
            by (auto split: option.splits if_splits)
          from 2(3) [OF c34 \<open>c = 92\<close> t True u False s] t show ?thesis by simp
        next
          case hi: True
          with \<open>c = 92\<close> True t u 2(6) obtain u2 where u2: "decode_uXXXX (drop 6 t') = Some u2"
            by (auto split: option.splits)
          show ?thesis
          proof (cases "56320 \<le> u2 \<and> u2 \<le> 57343")
            case True
            with \<open>c = 92\<close> \<open>e = 117\<close> t u u2 hi 2(6)
            obtain x' where s: "scanstring (drop 10 t') = Some (x', r)"
              by (auto split: option.splits if_splits)
            from 2(1) [OF c34 \<open>c = 92\<close> t \<open>e = 117\<close> u hi u2 True s] t show ?thesis by simp
          next
            case False
            with \<open>c = 92\<close> \<open>e = 117\<close> t u u2 hi 2(6)
            obtain x' where s: "scanstring (drop 4 t') = Some (x', r)"
              by (auto split: option.splits if_splits)
            from 2(2) [OF c34 \<open>c = 92\<close> t \<open>e = 117\<close> u hi u2 False s] t show ?thesis by simp
          qed
        qed
      qed
    qed
  qed
qed


lemma match_integer_nonempty: "match_integer s = Some (i, r) \<Longrightarrow> i \<noteq> []"
  by (cases s) (auto simp: match_integer_def Let_def is_digit_def split: if_splits list.splits)

lemma match_number_shorter: "match_number s = Some (i, f, e, r) \<Longrightarrow> length r < length s"
proof -
  assume m: "match_number s = Some (i, f, e, r)"
  then have "i \<noteq> []"
    by (auto simp: match_number_def split: option.splits prod.splits dest: match_integer_nonempty)
  with match_number_parts [OF m] show ?thesis by (cases i) auto
qed

lemma starts_with_drop:
  "starts_with p s \<Longrightarrow> p \<noteq> [] \<Longrightarrow> length (drop (length p) s) < length s"
  by (cases p; cases s) (auto simp: starts_with_def)

lemma parse_value_string_eq:
  "parse_value f (Suc n) (34 # t) = map_option (\<lambda>(x, rest). (PStr x, rest)) (scanstring t)"
  by simp

lemma parse_value_object_eq:
  "parse_value f (Suc n) (123 # t) =
     (case skip_ws t of
        [] \<Rightarrow> None
      | q # r' \<Rightarrow>
          if q = 125 then Some (PDict [], r')
          else if q = 34 then
            map_option (\<lambda>(pairs, rest). (PDict (dict_of_pairs pairs), rest)) (parse_object f n r')
          else None)"
  by simp

lemma parse_value_array_eq:
  "parse_value f (Suc n) (91 # t) =
     (case skip_ws t of
        [] \<Rightarrow> None
      | q # r' \<Rightarrow>
          if q = 93 then Some (PList [], r')
          else map_option (\<lambda>(vs, rest). (PList vs, rest)) (parse_array f n (q # r')))"
  by simp

lemma parse_value_scalar_eq:
  "c \<noteq> 34 \<Longrightarrow> c \<noteq> 123 \<Longrightarrow> c \<noteq> 91 \<Longrightarrow>
   parse_value f (Suc n) (c # t) = parse_value f (Suc 0) (c # t)"
  by simp

lemma scalar_shorter:
  assumes "c \<noteq> 34" "c \<noteq> 123" "c \<noteq> 91"
    and "parse_value f (Suc 0) (c # t) = Some (v, r)"
  shows "length r < length (c # t)"
proof -
  have d: "length (drop (length p) (c # t)) < length (c # t)"
    if "starts_with p (c # t)" "p \<noteq> []" for p
    using that by (rule starts_with_drop)
  have l: "length (ustr ''null'') = 4" "length (ustr ''true'') = 4" "length (ustr ''false'') = 5"
    "length (ustr ''NaN'') = 3" "length (ustr ''Infinity'') = 8" "length (ustr ''-Infinity'') = 9"
    by (simp_all add: ustr_def)
  show ?thesis
  proof (cases "match_number (c # t)")
    case (Some m)
    then obtain i fr e r' where m: "match_number (c # t) = Some (i, fr, e, r')"
      by (cases m) auto
    from match_number_shorter [OF m] assms m l
      d [of "ustr ''null''"] d [of "ustr ''true''"] d [of "ustr ''false''"]
    show ?thesis
      by (auto split: if_splits)
  next
    case None
    with assms l
      d [of "ustr ''null''"] d [of "ustr ''true''"] d [of "ustr ''false''"]
      d [of "ustr ''NaN''"] d [of "ustr ''Infinity''"] d [of "ustr ''-Infinity''"]
    show ?thesis
      by (auto split: if_splits)
  qed
qed


lemma parse_array_SucE:
  assumes "parse_array f (Suc n) s = Some (vs, r)"
  obtains v r1 where "parse_value f n s = Some (v, r1)" "skip_ws r1 = 93 # r" "vs = [v]"
  | v r1 r2 vs' where "parse_value f n s = Some (v, r1)" "skip_ws r1 = 44 # r2"
      "parse_array f n (skip_ws r2) = Some (vs', r)" "vs = v # vs'"
  using assms by (auto split: option.splits list.splits if_splits)

lemma parse_array_one:
  "parse_value f m s = Some (v, r1) \<Longrightarrow> skip_ws r1 = 93 # r \<Longrightarrow>
   parse_array f (Suc m) s = Some ([v], r)"
  by simp

lemma parse_array_more:
  "parse_value f m s = Some (v, r1) \<Longrightarrow> skip_ws r1 = 44 # r2 \<Longrightarrow>
   parse_array f m (skip_ws r2) = Some (vs', r) \<Longrightarrow>
   parse_array f (Suc m) s = Some (v # vs', r)"
  by simp

lemma parse_object_SucE:
  assumes "parse_object f (Suc n) s = Some (ps, r)"
  obtains key r1 r2 v r3 where "scanstring s = Some (key, r1)" "skip_ws r1 = 58 # r2"
      "parse_value f n (skip_ws r2) = Some (v, r3)" "skip_ws r3 = 125 # r" "ps = [(key, v)]"
  | key r1 r2 v r3 r4 r5 ps' where "scanstring s = Some (key, r1)" "skip_ws r1 = 58 # r2"
      "parse_value f n (skip_ws r2) = Some (v, r3)" "skip_ws r3 = 44 # r4"
      "skip_ws r4 = 34 # r5" "parse_object f n r5 = Some (ps', r)" "ps = (key, v) # ps'"
  using assms by (auto split: option.splits list.splits if_splits)

lemma parse_object_one:
  "scanstring s = Some (key, r1) \<Longrightarrow> skip_ws r1 = 58 # r2 \<Longrightarrow>
   parse_value f m (skip_ws r2) = Some (v, r3) \<Longrightarrow> skip_ws r3 = 125 # r \<Longrightarrow>
   parse_object f (Suc m) s = Some ([(key, v)], r)"
  by simp

lemma parse_object_more:
  "scanstring s = Some (key, r1) \<Longrightarrow> skip_ws r1 = 58 # r2 \<Longrightarrow>
   parse_value f m (skip_ws r2) = Some (v, r3) \<Longrightarrow> skip_ws r3 = 44 # r4 \<Longrightarrow>
   skip_ws r4 = 34 # r5 \<Longrightarrow> parse_object f m r5 = Some (ps', r) \<Longrightarrow>
   parse_object f (Suc m) s = Some ((key, v) # ps', r)"
  by simp

lemma skip_ws_Cons_length: "skip_ws a = c # b \<Longrightarrow> length b < length a"
  using skip_ws_length [of a] by simp


lemma fuel_enough:
  "(\<forall>s v r. parse_value f n s = Some (v, r) \<longrightarrow>
      length r < length s \<and>
      (\<forall>m. length s - length r \<le> m \<longrightarrow> parse_value f m s = Some (v, r))) \<and>
   (\<forall>s vs r. parse_array f n s = Some (vs, r) \<longrightarrow>
      length r < length s \<and>
      (\<forall>m. length s - length r \<le> m \<longrightarrow> parse_array f m s = Some (vs, r))) \<and>
   (\<forall>s ps r. parse_object f n s = Some (ps, r) \<longrightarrow>
      length r < length s \<and>
      (\<forall>m. length s - length r \<le> m \<longrightarrow> parse_object f m s = Some (ps, r)))"
proof (induction n)
  case 0
  show ?case by simp
next
  case (Suc n)
  then have V: "length r < length s"
      "length s - length r \<le> m \<Longrightarrow> parse_value f m s = Some (v, r)"
    if "parse_value f n s = Some (v, r)" for s v r m
    using that by blast+
  from Suc have A: "length r < length s"
      "length s - length r \<le> m \<Longrightarrow> parse_array f m s = Some (vs, r)"
    if "parse_array f n s = Some (vs, r)" for s vs r m
    using that by blast+
  from Suc have O: "length r < length s"
      "length s - length r \<le> m \<Longrightarrow> parse_object f m s = Some (ps, r)"
    if "parse_object f n s = Some (ps, r)" for s ps r m
    using that by blast+
  have val_step: "length r < length s \<and>
      (\<forall>m. length s - length r \<le> m \<longrightarrow> parse_value f m s = Some (v, r))"
    if a: "parse_value f (Suc n) s = Some (v, r)" for s v r
  proof -
    from a obtain c t where s: "s = c # t" by (cases s) auto
    consider "c = 34" | "c = 123" | "c = 91" | "c \<noteq> 34" "c \<noteq> 123" "c \<noteq> 91" by blast
    then show ?thesis
    proof cases
      case 1
      with a s obtain x where x: "scanstring t = Some (x, r)" "v = PStr x" by auto
      from scanstring_shorter [OF x(1)] have l: "length r < length s" by (simp add: s)
      have "parse_value f m s = Some (v, r)" if "length s - length r \<le> m" for m
      proof -
        from that l obtain m' where "m = Suc m'" by (cases m) auto
        then show ?thesis using x 1 s by simp
      qed
      with l show ?thesis by blast
    next
      case 2
      with a s obtain q r' where q: "skip_ws t = q # r'"
        by (cases "skip_ws t") auto
      from skip_ws_Cons_length [OF q] have lr': "length r' < length t" .
      show ?thesis
      proof (cases "q = 125")
        case True
        with a s 2 q have r: "r = r'" "v = PDict []" by auto
        have l: "length r < length s" using lr' r s by simp
        have "parse_value f m s = Some (v, r)" if "length s - length r \<le> m" for m
        proof -
          from that l obtain m' where "m = Suc m'" by (cases m) auto
          then show ?thesis using 2 s q True r by simp
        qed
        with l show ?thesis by blast
      next
        case False
        with a s 2 q obtain ps where ps: "q = 34" "parse_object f n r' = Some (ps, r)"
          "v = PDict (dict_of_pairs ps)"
          by (auto split: if_splits)
        from O(1) [OF ps(2)] lr' have l: "length r < length s" by (simp add: s)
        have "parse_value f m s = Some (v, r)" if "length s - length r \<le> m" for m
        proof -
          from that l obtain m' where m: "m = Suc m'" by (cases m) auto
          with that lr' s have "length r' - length r \<le> m'" by simp
          from O(2) [OF ps(2) this] show ?thesis using 2 s q ps m by simp
        qed
        with l show ?thesis by blast
      qed
    next
      case 3
      with a s obtain q r' where q: "skip_ws t = q # r'"
        by (cases "skip_ws t") auto
      from skip_ws_Cons_length [OF q] have lr': "length r' < length t" .
      show ?thesis
      proof (cases "q = 93")
        case True
        with a s 3 q have r: "r = r'" "v = PList []" by auto
        have l: "length r < length s" using lr' r s by simp
        have "parse_value f m s = Some (v, r)" if "length s - length r \<le> m" for m
        proof -
          from that l obtain m' where "m = Suc m'" by (cases m) auto
          then show ?thesis using 3 s q True r by simp
        qed
        with l show ?thesis by blast
      next
        case False
        with a s 3 q obtain vs where vs: "parse_array f n (q # r') = Some (vs, r)"
          "v = PList vs"
          by (auto split: if_splits)
        from A(1) [OF vs(1)] lr' have l: "length r < length s" by (simp add: s)
        have "parse_value f m s = Some (v, r)" if "length s - length r \<le> m" for m
        proof -
          from that l obtain m' where m: "m = Suc m'" by (cases m) auto
          with that lr' s have "length (q # r') - length r \<le> m'" by simp
          from A(2) [OF vs(1) this] show ?thesis using 3 s q vs m False by simp
        qed
        with l show ?thesis by blast
      qed
    next
      case 4
      from a have b: "parse_value f (Suc 0) (c # t) = Some (v, r)"
        unfolding s parse_value_scalar_eq [OF 4, of f n t] .
      from scalar_shorter [OF 4 b] have l: "length r < length s" by (simp add: s)
      have "parse_value f m s = Some (v, r)" if "length s - length r \<le> m" for m
      proof -
        from that l obtain m' where m: "m = Suc m'" by (cases m) auto
        have "parse_value f (Suc m') (c # t) = parse_value f (Suc 0) (c # t)"
          by (rule parse_value_scalar_eq [OF 4])
        with b show ?thesis by (simp only: s m)
      qed
      with l show ?thesis by blast
    qed
  qed
  have arr_step: "length r < length s \<and>
      (\<forall>m. length s - length r \<le> m \<longrightarrow> parse_array f m s = Some (vs, r))"
    if a: "parse_array f (Suc n) s = Some (vs, r)" for s vs r
    using a
  proof (cases rule: parse_array_SucE)
    case (1 v r1)
    from V(1) [OF 1(1)] skip_ws_Cons_length [OF 1(2)] have l: "length r < length s" "length r < length r1"
      "length r1 < length s"
      by simp_all
    have "parse_array f m s = Some (vs, r)" if "length s - length r \<le> m" for m
    proof -
      from that l obtain m' where m: "m = Suc m'" by (cases m) auto
      with that l have "length s - length r1 \<le> m'" by simp
      from V(2) [OF 1(1) this] show ?thesis
        unfolding m 1(3) using 1(2) by (rule parse_array_one)
    qed
    with l show ?thesis by blast
  next
    case (2 v r1 r2 vs')
    from V(1) [OF 2(1)] skip_ws_Cons_length [OF 2(2)] A(1) [OF 2(3)] skip_ws_length [of r2]
    have l: "length r < length s" "length r1 < length s" "length r2 < length r1"
      "length r < length (skip_ws r2)" "length (skip_ws r2) \<le> length r2"
      by simp_all
    have "parse_array f m s = Some (vs, r)" if "length s - length r \<le> m" for m
    proof -
      from that l obtain m' where m: "m = Suc m'" by (cases m) auto
      with that l have 1: "length s - length r1 \<le> m'"
        and 3: "length (skip_ws r2) - length r \<le> m'"
        by simp_all
      from V(2) [OF 2(1) 1] 2(2) A(2) [OF 2(3) 3] show ?thesis
        unfolding m 2(4) by (rule parse_array_more)
    qed
    with l show ?thesis by blast
  qed
  have obj_step: "length r < length s \<and>
      (\<forall>m. length s - length r \<le> m \<longrightarrow> parse_object f m s = Some (ps, r))"
    if a: "parse_object f (Suc n) s = Some (ps, r)" for s ps r
    using a
  proof (cases rule: parse_object_SucE)
    case (1 key r1 r2 v r3)
    from scanstring_shorter [OF 1(1)] skip_ws_Cons_length [OF 1(2)] skip_ws_length [of r2]
      V(1) [OF 1(3)] skip_ws_Cons_length [OF 1(4)]
    have l: "length r1 < length s" "length r2 < length r1" "length (skip_ws r2) \<le> length r2"
      "length r3 < length (skip_ws r2)" "length r < length r3"
      by simp_all
    then have l0: "length r < length s" by simp
    have "parse_object f m s = Some (ps, r)" if "length s - length r \<le> m" for m
    proof -
      from that l obtain m' where m: "m = Suc m'" by (cases m) auto
      with that l have "length (skip_ws r2) - length r3 \<le> m'" by simp
      from 1(1) 1(2) V(2) [OF 1(3) this] 1(4) show ?thesis
        unfolding m 1(5) by (rule parse_object_one)
    qed
    with l0 show ?thesis by blast
  next
    case (2 key r1 r2 v r3 r4 r5 ps')
    from scanstring_shorter [OF 2(1)] skip_ws_Cons_length [OF 2(2)] skip_ws_length [of r2]
      V(1) [OF 2(3)] skip_ws_Cons_length [OF 2(4)] skip_ws_Cons_length [OF 2(5)] O(1) [OF 2(6)]
    have l: "length r1 < length s" "length r2 < length r1" "length (skip_ws r2) \<le> length r2"
      "length r3 < length (skip_ws r2)" "length r4 < length r3" "length r5 < length r4"
      "length r < length r5"
      by simp_all
    then have l0: "length r < length s" by simp
    have "parse_object f m s = Some (ps, r)" if "length s - length r \<le> m" for m
    proof -
      from that l obtain m' where m: "m = Suc m'" by (cases m) auto
      with that l have 1: "length (skip_ws r2) - length r3 \<le> m'"
        and 3: "length r5 - length r \<le> m'"
        by simp_all
      from 2(1) 2(2) V(2) [OF 2(3) 1] 2(4) 2(5) O(2) [OF 2(6) 3] show ?thesis
        unfolding m 2(7) by (rule parse_object_more)
    qed
    with l0 show ?thesis by blast
  qed
  from val_step arr_step obj_step show ?case by blast
qed

text \<open>
  \<open>json_loads\<close> never fails for want of calls: what the scanner returns with
  any bound, it returns with the bound of \<open>json_loads\<close>.
\<close>

lemma json_loads_bound_enough:
  assumes "parse_value f n (skip_ws s) = Some (v, rest)"
  shows "parse_value f (Suc (length s)) (skip_ws s) = Some (v, rest)"
proof -
  have "length (skip_ws s) - length rest \<le> Suc (length s)"
    using skip_ws_length [of s] by simp
  with fuel_enough [of f n] assms show ?thesis by blast
qed

subsection \<open>UTF-8\<close>

lemma div_4096: "(c::nat) div 4096 = c div 64 div 64"
proof -
  have "c div (64 * 64) = c div 64 div 64" by (rule div_mult2_eq)
  then show ?thesis by simp
qed

lemma div_262144: "(c::nat) div 262144 = c div 64 div 64 div 64"
proof -
  have "c div (64 * (64 * 64)) = c div 64 div (64 * 64)" by (rule div_mult2_eq)
  also have "\<dots> = c div 64 div 64 div 64" by (rule div_mult2_eq)
  finally show ?thesis by simp
qed

lemma split2: "(a::nat) div 64 * 4096 + a mod 64 * 64 = a * 64"
proof -
  define x y where "x = a div 64" and "y = a mod 64"
  have "a = x * 64 + y" by (simp add: x_def y_def)
  then have "x * 4096 + y * 64 = a * 64" by arith
  then show ?thesis by (simp add: x_def y_def)
qed

lemma split3: "(c::nat) div 4096 * 4096 + c div 64 mod 64 * 64 + c mod 64 = c"
proof -
  have "c div 64 div 64 * 4096 + c div 64 mod 64 * 64 = c div 64 * 64"
    by (rule split2)
  then show ?thesis by (simp add: div_4096)
qed

lemma split4:
  "(c::nat) div 262144 * 262144 + c div 4096 mod 64 * 4096 + c div 64 mod 64 * 64 + c mod 64 = c"
proof -
  define a where "a = c div 64"
  have "a div 4096 * 4096 + a div 64 mod 64 * 64 + a mod 64 = a" by (rule split3)
  then have "(a div 4096 * 4096 + a div 64 mod 64 * 64 + a mod 64) * 64 = a * 64" by simp
  then have "a div 4096 * 262144 + a div 64 mod 64 * 4096 + a mod 64 * 64 = a * 64"
    by (simp add: add_mult_distrib)
  moreover have "a div 4096 = c div 262144" by (simp add: a_def div_4096 div_262144)
  moreover have "a div 64 = c div 4096" by (simp add: a_def div_4096)
  ultimately have "c div 262144 * 262144 + c div 4096 mod 64 * 4096 + c div 64 mod 64 * 64 = c div 64 * 64"
    by (simp add: a_def)
  then show ?thesis by simp
qed

lemma utf8_char_2:
  assumes "128 \<le> c" "c < 2048"
  shows "utf8_dec ((192 + c div 64) # (128 + c mod 64) # rest) =
         map_option ((#) c) (utf8_dec rest)"
proof -
  have "2 \<le> c div 64" "c div 64 < 32" using assms by auto
  moreover have "c div 64 * 64 + c mod 64 = c" by simp
  ultimately show ?thesis by (simp add: cont_def)
qed

lemma utf8_char_3:
  assumes "2048 \<le> c" "c < 65536" "\<not> (55296 \<le> c \<and> c < 57344)"
  shows "utf8_dec ((224 + c div 4096) # (128 + c div 64 mod 64) # (128 + c mod 64) # rest) =
         map_option ((#) c) (utf8_dec rest)"
proof -
  have "c div 4096 < 16" using assms by auto
  moreover note split3 [of c]
  ultimately show ?thesis using assms by (simp add: cont_def Let_def)
qed

lemma utf8_char_4:
  assumes "65536 \<le> c" "c < 1114112"
  shows "utf8_dec ((240 + c div 262144) # (128 + c div 4096 mod 64) # (128 + c div 64 mod 64) #
                   (128 + c mod 64) # rest) =
         map_option ((#) c) (utf8_dec rest)"
proof -
  have "c div 262144 < 5" using assms by auto
  moreover note split4 [of c]
  ultimately show ?thesis using assms by (simp add: cont_def Let_def)
qed

lemma mod_64_less: "(x::nat) mod 64 < 128"
proof -
  have "x mod 64 < 64" by simp
  then show ?thesis by linarith
qed

lemma utf8_char_roundtrip:
  assumes "c < 1114112" "\<not> (55296 \<le> c \<and> c < 57344)"
  shows "\<exists>bs. utf8_enc_char c = Some bs \<and> (\<forall>b\<in>set bs. b < 256) \<and>
           utf8_dec (bs @ rest) = map_option ((#) c) (utf8_dec rest)"
proof -
  consider "c < 128" | "128 \<le> c" "c < 2048" | "2048 \<le> c" "c < 65536" | "65536 \<le> c"
    by linarith
  then show ?thesis
  proof cases
    case 1
    then show ?thesis by (simp add: utf8_enc_char_def)
  next
    case 2
    then have "c div 64 < 32" by auto
    with 2 show ?thesis by (simp add: utf8_enc_char_def utf8_char_2 mod_64_less del: utf8_dec.simps)
  next
    case 3
    then have "c div 4096 < 16" by auto
    with 3 assms show ?thesis by (simp add: utf8_enc_char_def utf8_char_3 mod_64_less del: utf8_dec.simps)
  next
    case 4
    with assms have "c div 262144 < 5" by auto
    with 4 assms show ?thesis by (simp add: utf8_enc_char_def utf8_char_4 mod_64_less del: utf8_dec.simps)
  qed
qed

lemma utf8_enc_roundtrip:
  "text_ok s \<Longrightarrow> \<exists>bs. utf8_enc s = Some bs \<and> (\<forall>b\<in>set bs. b < 256) \<and> utf8_dec bs = Some s"
proof (induction s)
  case Nil
  then show ?case by simp
next
  case (Cons c s)
  then obtain bs where bs: "utf8_enc s = Some bs" "\<forall>b\<in>set bs. b < 256" "utf8_dec bs = Some s"
    by (auto simp: text_ok_def)
  from Cons.prems have c: "c < 1114112" "\<not> (55296 \<le> c \<and> c < 57344)"
    by (auto simp: text_ok_def)
  from utf8_char_roundtrip [OF c, of bs]
  obtain cs where cs: "utf8_enc_char c = Some cs" "\<forall>b\<in>set cs. b < 256"
    "utf8_dec (cs @ bs) = map_option ((#) c) (utf8_dec bs)"
    by blast
  with bs show ?case by auto
qed

lemma utf8_decode_encode:
  assumes "text_ok s"
  shows "\<exists>data. utf8_encode s = Some data \<and> utf8_decode data = Some s"
proof -
  obtain bs where bs: "utf8_enc s = Some bs" "\<forall>b\<in>set bs. b < 256" "utf8_dec bs = Some s"
    using utf8_enc_roundtrip [OF assms] by blast
  have "map unat (map of_nat bs :: 8 word list) = bs"
    using bs(2) by (induction bs) (simp_all add: unat_of_nat)
  with bs show ?thesis by (simp add: utf8_encode_def utf8_decode_def)
qed

subsection \<open>The text of a message\<close>

lemma text_ok_iff: "text_ok s \<longleftrightarrow> (\<forall>c\<in>set s. char_ok c)"
  by (simp add: text_ok_def char_ok_def list_all_iff)

lemma ascii_ok: "c < 128 \<Longrightarrow> char_ok c"
  by (simp add: char_ok_def)

lemma text_ok_append [simp]: "text_ok (a @ b) \<longleftrightarrow> text_ok a \<and> text_ok b"
  by (auto simp: text_ok_iff)

lemma text_ok_Cons [simp]: "text_ok (c # s) \<longleftrightarrow> char_ok c \<and> text_ok s"
  by (auto simp: text_ok_iff)

lemma text_ok_Nil [simp]: "text_ok []"
  by (simp add: text_ok_iff)

lemma small_ok: "c < 256 \<Longrightarrow> char_ok c"
  by (simp add: char_ok_def)

lemma digit_ok: "is_digit c \<Longrightarrow> char_ok c"
  by (simp add: is_digit_def char_ok_def)

lemma text_ok_ustr [simp]: "text_ok (ustr s)"
proof -
  have "(of_char c :: nat) < 256" for c
    by (cases c) (simp add: of_char_def)
  then have "char_ok (of_char c)" for c
    by (rule small_ok)
  then show ?thesis by (auto simp: text_ok_iff ustr_def)
qed

lemma text_ok_digits: "text_ok (digits_of n)"
  using digits_of_digits [of _ n] by (auto simp: text_ok_iff intro: digit_ok)

lemma text_ok_int_repr: "text_ok (int_repr i)"
  by (simp add: int_repr_def text_ok_digits char_ok_def)

lemma hexdigit_ok: "d < 16 \<Longrightarrow> char_ok (hexdigit d)"
  by (simp add: hexdigit_def char_ok_def)

lemma text_ok_escape_char: "char_ok c \<Longrightarrow> text_ok (escape_char c)"
  by (simp add: escape_char_def hex4_def hexdigit_ok) (simp add: char_ok_def)

lemma text_ok_concat: "(\<And>x. x \<in> set xs \<Longrightarrow> text_ok x) \<Longrightarrow> text_ok (concat xs)"
  by (induction xs) auto

lemma text_ok_basestring: "text_ok s \<Longrightarrow> text_ok (encode_basestring s)"
  by (auto simp: encode_basestring_def char_ok_def [of 34] text_ok_iff [of s]
      intro!: text_ok_concat text_ok_escape_char)

lemma text_ok_join:
  "(\<And>x. x \<in> set xs \<Longrightarrow> text_ok x) \<Longrightarrow> text_ok sep \<Longrightarrow> text_ok (join sep xs)"
  by (induction sep xs rule: join.induct) auto

lemma digits_ok: "text_ok (takeWhile is_digit s)"
proof -
  have "is_digit c" if "c \<in> set (takeWhile is_digit s)" for c
    using that by (rule set_takeWhileD [THEN conjunct2])
  then show ?thesis by (auto simp: text_ok_iff intro: digit_ok)
qed

lemma match_integer_ok: "match_integer s = Some (i, r) \<Longrightarrow> text_ok i"
  by (cases s)
    (auto simp: match_integer_def Let_def digits_ok small_ok
      split: if_splits list.splits intro: digit_ok)

lemma match_frac_ok: "match_frac s = (f, r) \<Longrightarrow> text_ok f"
  by (cases s) (auto simp: match_frac_def digits_ok small_ok split: if_splits intro: digit_ok)

lemma match_exp_ok: "match_exp s = (e, r) \<Longrightarrow> text_ok e"
  by (cases s; cases "tl s")
    (auto simp: match_exp_def Let_def digits_ok small_ok split: if_splits intro: digit_ok)

lemma match_number_ok:
  "match_number s = Some (i, f, e, r) \<Longrightarrow> text_ok i \<and> text_ok f \<and> text_ok e"
  by (auto simp: match_number_def split: option.splits prod.splits
      dest: match_integer_ok match_frac_ok match_exp_ok)

lemma text_ok_float: "float_text_ok frepr fparse q \<Longrightarrow> text_ok (frepr q)"
proof -
  assume "float_text_ok frepr fparse q"
  then obtain i f e where m: "match_number (frepr q) = Some (i, f, e, [])"
    by (auto simp: float_text_ok_def split: option.splits)
  from match_number_parts [OF m] match_number_ok [OF m] show ?thesis by simp
qed

lemma text_ok_dumps: "json_value frepr fparse v \<Longrightarrow> text_ok (json_dumps frepr v)"
proof (induction frepr v rule: json_dumps.induct)
  case (4 frepr f)
  then show ?case by (cases f) (auto simp: float_repr_def text_ok_float)
next
  case (6 frepr xs)
  then have "text_ok (join [44] (map (json_dumps frepr) xs))"
    by (intro text_ok_join) (auto simp: list_all_iff char_ok_def)
  then show ?case by (simp add: char_ok_def)
next
  case (7 frepr kvs)
  then have "text_ok (join [44]
      (map (\<lambda>kv. encode_basestring (fst kv) @ [58] @ json_dumps frepr (snd kv)) kvs))"
    by (intro text_ok_join) (auto simp: list_all_iff char_ok_def text_ok_basestring)
  then show ?case by (simp add: char_ok_def)
qed (simp_all add: text_ok_int_repr text_ok_basestring)

lemma strip_object_line: "strip (123 # m @ [125, 10]) = 123 # m @ [125]"
  by (simp add: strip_def isspace_def)

lemma dumps_dict_shape: "\<exists>m. json_dumps frepr (PDict kvs) = 123 # m @ [125]"
  by simp

lemma unat_and_15: "unat (x AND 15 :: 128 word) < 16"
proof -
  have "x AND 15 \<le> 15" by (rule word_and_le1)
  then have "unat (x AND 15) \<le> unat (15 :: 128 word)" by (simp add: word_le_nat_alt)
  then show ?thesis by simp
qed

lemma text_ok_hex32: "text_ok (hex32 u)"
  by (auto simp: text_ok_iff hex32_def intro!: hexdigit_ok unat_and_15)

lemma text_ok_take: "text_ok s \<Longrightarrow> text_ok (take n s)"
  by (auto simp: text_ok_iff dest: in_set_takeD)

lemma text_ok_drop: "text_ok s \<Longrightarrow> text_ok (drop n s)"
  by (auto simp: text_ok_iff dest: in_set_dropD)

lemma text_ok_uuid_str: "text_ok (uuid_str u)"
  by (simp add: uuid_str_def Let_def text_ok_hex32 text_ok_take text_ok_drop small_ok)

lemma json_value_build_message:
  assumes "json_value frepr fparse msg_type" "json_value frepr fparse payload"
    and "json_value frepr fparse rid" "text_ok now"
  shows "json_value frepr fparse (build_message rnd now msg_type payload rid)"
  using assms
  by (simp add: build_message_def PROTOCOL_VERSION_def text_ok_uuid_str)
    (simp add: ustr_def)

subsection \<open>The round trip of a message\<close>

text \<open>
  C5. For every envelope built by \<open>build_message\<close> from a type, a payload and
  a \<open>request_id\<close> that JSON represents (\<open>None\<close> for an absent \<open>request_id\<close>):
  \<open>encode_message\<close> returns data, these decode as UTF-8, and \<open>decode_message\<close>
  of that text returns the envelope itself, so with the same \<open>type\<close>,
  \<open>request_id\<close> and \<open>payload\<close>. The floats of the envelope are finite and
  printed and read back by the runtime as \<open>float_text_ok\<close> says.
\<close>

theorem encode_decode_roundtrip:
  assumes "json_value frepr fparse msg_type" "json_value frepr fparse payload"
    and "json_value frepr fparse rid" "text_ok now"
  shows "\<exists>data raw decoded.
           encode_message (json_dumps frepr) (build_message rnd now msg_type payload rid) = Inr data \<and>
           utf8_decode data = Some raw \<and>
           decode_message (json_loads fparse) raw = Inr decoded \<and>
           decoded = build_message rnd now msg_type payload rid \<and>
           py_getitem decoded (ustr ''type'') = Inr msg_type \<and>
           py_getitem decoded (ustr ''payload'') = Inr payload \<and>
           py_getitem decoded (ustr ''request_id'') =
             Inr (if truthy rid then rid else PStr (uuid_str (uuid4 rnd)))"
proof -
  let ?msg = "build_message rnd now msg_type payload rid"
  have jv: "json_value frepr fparse ?msg"
    using assms by (rule json_value_build_message)
  obtain m where m: "json_dumps frepr ?msg = 123 # m @ [125]"
    using dumps_dict_shape [of frepr] by (auto simp: build_message_def)
  have "text_ok (json_dumps frepr ?msg @ [10])"
    using text_ok_dumps [OF jv] by (simp add: small_ok)
  then obtain data where data: "utf8_encode (json_dumps frepr ?msg @ [10]) = Some data"
    "utf8_decode data = Some (json_dumps frepr ?msg @ [10])"
    using utf8_decode_encode by blast
  have enc: "encode_message (json_dumps frepr) ?msg = Inr data"
    using data(1) by (simp add: encode_message_def)
  have "strip (json_dumps frepr ?msg @ [10]) = json_dumps frepr ?msg"
    unfolding m using strip_object_line [of m] by simp
  then have dec: "decode_message (json_loads fparse) (json_dumps frepr ?msg @ [10]) = Inr ?msg"
    using json_loads_dumps [OF jv] m by (simp add: decode_message_def)
  have fields: "py_getitem ?msg (ustr ''type'') = Inr msg_type"
    "py_getitem ?msg (ustr ''payload'') = Inr payload"
    "py_getitem ?msg (ustr ''request_id'') =
       Inr (if truthy rid then rid else PStr (uuid_str (uuid4 rnd)))"
    by (simp_all add: build_message_def ustr_def)
  from enc data(2) dec fields show ?thesis by blast
qed

lemma example_hyps:
  "json_value example_float_repr example_float (PStr (ustr ''ping''))"
  "json_value example_float_repr example_float example_payload"
  "json_value example_float_repr example_float PNone"
  "text_ok (ustr ''2026-02-23T10:00:00'')"
  by (simp_all add: example_payload_def float_text_ok_def example_float_repr_def
      example_float_def match_number_def match_integer_def match_frac_def match_exp_def
      is_digit_def Let_def ustr_def char_ok_def)

theorem encode_decode_roundtrip_witness:
  "json_value example_float_repr example_float (PStr (ustr ''ping'')) \<and>
   json_value example_float_repr example_float example_payload \<and>
   json_value example_float_repr example_float PNone \<and>
   text_ok (ustr ''2026-02-23T10:00:00'') \<and>
   (\<exists>data raw decoded.
      encode_message (json_dumps example_float_repr)
        (build_message 0 (ustr ''2026-02-23T10:00:00'') (PStr (ustr ''ping'')) example_payload PNone)
        = Inr data \<and>
      utf8_decode data = Some raw \<and>
      decode_message (json_loads example_float) raw = Inr decoded \<and>
      py_getitem decoded (ustr ''type'') = Inr (PStr (ustr ''ping'')) \<and>
      py_getitem decoded (ustr ''payload'') = Inr example_payload \<and>
      py_getitem decoded (ustr ''request_id'') = Inr (PStr (uuid_str (uuid4 0))))"
proof -
  from encode_decode_roundtrip [OF example_hyps, of 0]
  have "\<exists>data raw decoded.
      encode_message (json_dumps example_float_repr)
        (build_message 0 (ustr ''2026-02-23T10:00:00'') (PStr (ustr ''ping'')) example_payload PNone)
        = Inr data \<and>
      utf8_decode data = Some raw \<and>
      decode_message (json_loads example_float) raw = Inr decoded \<and>
      py_getitem decoded (ustr ''type'') = Inr (PStr (ustr ''ping'')) \<and>
      py_getitem decoded (ustr ''payload'') = Inr example_payload \<and>
      py_getitem decoded (ustr ''request_id'') = Inr (PStr (uuid_str (uuid4 0)))"
    by simp blast
  with example_hyps show ?thesis by blast
qed

text \<open>
  C5 as stated, for any type and any supplied \<open>request_id\<close>, fails on a
  \<open>str\<close> with a lone surrogate (which \<open>json.loads\<close> builds from the escape of
  U+D800, so the server can get one as \<open>request_id\<close>): \<open>json.dumps\<close> with
  \<open>ensure_ascii=False\<close> leaves it as it is, and \<open>encode("utf-8")\<close> raises
  \<open>UnicodeEncodeError\<close>, so there is nothing to decode.
\<close>

theorem encode_surrogate_counterexample:
  "encode_message (json_dumps example_float_repr)
     (build_message 0 (ustr ''2026-02-23T10:00:00'') (PStr (ustr ''ping'')) (PDict [])
        (PStr [55296])) = Inl (ValueError UnicodeEncodeError)"
  by (simp add: encode_message_def utf8_encode_def build_message_def encode_basestring_def
      escape_char_def ustr_def utf8_enc_char_def PROTOCOL_VERSION_def)

end
